theory Spec2Isabelle
  imports Main "HOL-Library.Word" "HOL-Library.Sublist"
begin

unbundle bit_operations_syntax

section \<open>C strings and the numeric conversions of the C library\<close>

text \<open>
  A C string is modelled as a \<open>string\<close> (a list of characters without the terminating
  NUL): the empty list is the string whose first character is \<open>'\0'\<close>. A pointer into a
  string is the suffix that starts there, so two pointers into the same string are equal
  exactly when the suffixes are.
\<close>

definition isspace :: "char \<Rightarrow> bool" where
  \<comment> \<open>\<open>isspace(3)\<close> in the C locale: space, \<open>\t\<close>, \<open>\n\<close>, \<open>\v\<close>, \<open>\f\<close>, \<open>\r\<close>.\<close>
  "isspace c = (c = CHR '' '' \<or> (9::nat) \<le> of_char c \<and> of_char c \<le> (13::nat))"

definition digit_of :: "char \<Rightarrow> nat option" where
  \<comment> \<open>The value of a character as a digit: \<open>0..9\<close>, then the letters of either case
      from 10 on. \<open>None\<close> for any other character.\<close>
  "digit_of c =
     (let n = (of_char c :: nat) in
      if 48 \<le> n \<and> n \<le> 57 then Some (n - 48)
      else if 65 \<le> n \<and> n \<le> 90 then Some (n - 55)
      else if 97 \<le> n \<and> n \<le> 122 then Some (n - 87)
      else None)"

definition is_digit :: "nat \<Rightarrow> char \<Rightarrow> bool" where
  "is_digit base c = (case digit_of c of None \<Rightarrow> False | Some d \<Rightarrow> d < base)"

definition LLONG_MAX :: int where "LLONG_MAX = 2 ^ 63 - 1"
definition LLONG_MIN :: int where "LLONG_MIN = - (2 ^ 63)"
definition INT32_MAX :: int where "INT32_MAX = 2 ^ 31 - 1"
definition INT32_MIN :: int where "INT32_MIN = - (2 ^ 31)"

text \<open>
  \<open>scan_digits base s acc\<close> consumes the longest run of digits of the base at the front of
  \<open>s\<close> and returns the accumulated value and the rest.
\<close>

fun scan_digits :: "nat \<Rightarrow> string \<Rightarrow> nat \<Rightarrow> nat \<times> string" where
  "scan_digits base [] acc = (acc, [])"
| "scan_digits base (c # cs) acc =
     (if is_digit base c then scan_digits base cs (acc * base + the (digit_of c))
      else (acc, c # cs))"

record strtoll_result =
  sr_value :: int
  sr_endptr :: string
  sr_erange :: bool

definition skip_sign :: "string \<Rightarrow> bool \<times> string" where
  \<comment> \<open>An optional \<open>-\<close> or \<open>+\<close>: whether the number is negative, and what follows.\<close>
  "skip_sign s =
     (case s of
        [] \<Rightarrow> (False, s)
      | c # cs \<Rightarrow>
          if c = CHR ''-'' then (True, cs)
          else if c = CHR ''+'' then (False, cs)
          else (False, s))"

definition skip_0x :: "nat \<Rightarrow> string \<Rightarrow> string" where
  \<comment> \<open>For base 16, an optional \<open>0x\<close> or \<open>0X\<close> in front of a hexadecimal digit.\<close>
  "skip_0x base s =
     (case s of
        c0 # cx # c # cs \<Rightarrow>
          if base = 16 \<and> c0 = CHR ''0'' \<and> (cx = CHR ''x'' \<or> cx = CHR ''X'') \<and> is_digit 16 c
          then c # cs else s
      | _ \<Rightarrow> s)"

definition strtoll :: "string \<Rightarrow> nat \<Rightarrow> strtoll_result" where
  \<comment> \<open>Modelled from the spec: \<open>strtoll\<close> is a C library function outside the sources
      at hand. The spec's "signed decimal" and "base-16" tokens are read as strtol(3)
      reads them: leading white space is skipped, then an optional sign, then for base 16
      an optional \<open>0x\<close> in front of a hexadecimal digit, then the digits. With no digit
      nothing is converted: the value is 0 and the end pointer is the start of the string.
      A value outside \<open>long long\<close> is clamped and \<open>errno\<close> is set to \<open>ERANGE\<close>.\<close>
  "strtoll nptr base =
     (let (neg, s2) = skip_sign (dropWhile isspace nptr);
          s3 = skip_0x base s2
      in if s3 = [] \<or> \<not> is_digit base (hd s3)
         then \<lparr>sr_value = 0, sr_endptr = nptr, sr_erange = False\<rparr>
         else
           (let (acc, rest) = scan_digits base s3 0;
                v = (if neg then - int acc else int acc)
            in \<lparr>sr_value = max LLONG_MIN (min LLONG_MAX v), sr_endptr = rest,
                 sr_erange = (v < LLONG_MIN \<or> LLONG_MAX < v)\<rparr>))"

datatype numerr = INVALID | TOOSMALL | TOOLARGE

definition strtonum :: "string \<Rightarrow> int \<Rightarrow> int \<Rightarrow> numerr + int" where
  \<comment> \<open>Modelled from the spec: \<open>strtonum\<close> is a C library function outside the sources
      at hand. It is strtonum(3): the whole string must be one decimal number as
      \<open>strtoll\<close> reads it, within \<open>minval..maxval\<close>; \<open>Inl\<close> is a non-NULL \<open>errstr\<close>.\<close>
  "strtonum numstr minval maxval =
     (if minval > maxval then Inl INVALID
      else
        (let r = strtoll numstr 10 in
         if sr_endptr r = numstr \<or> sr_endptr r \<noteq> [] then Inl INVALID
         else if (sr_value r = LLONG_MIN \<and> sr_erange r) \<or> sr_value r < minval then Inl TOOSMALL
         else if (sr_value r = LLONG_MAX \<and> sr_erange r) \<or> sr_value r > maxval then Inl TOOLARGE
         else Inr (sr_value r)))"

section \<open>Data model\<close>

type_synonym oid = "nat list"
type_synonym byte = "8 word"

datatype snmp_version = SNMP_V1 | SNMP_V2C

text \<open>
  The value of a trap's variable binding, as \<open>snmpc_trap\<close> asks \<open>ber_printf_elements\<close>
  to build it: \<open>"{Oxt}"\<close> with \<open>SNMP_T_IPADDR\<close>, \<open>"{Oit}"\<close> with
  \<open>SNMP_T_COUNTER32\<close> or \<open>SNMP_T_TIMETICKS\<close>, \<open>"{Oi}"\<close>, \<open>"{O0}"\<close>, \<open>"{OO}"\<close>
  and \<open>"{Ox}"\<close>.
\<close>

datatype snmp_value =
    IpAddress "byte list"
  | Counter32 int
  | Integer int
  | Null
  | ObjectIdentifier oid
  | OctetString "byte list"
  | TimeTicks int

text \<open>
  An element of a reply, as far as the client looks at it: its class and type tags and its
  content. A reply is the error status, the error index and the list of variable bindings
  (\<open>ber_scanf_elements(pdu, "{Sdd{e", ...)\<close>).
\<close>

record ber_element =
  be_class :: nat
  be_type :: nat
  be_content :: "byte list"

type_synonym varbind = "oid \<times> ber_element"

record pdu =
  errorstatus :: int
  errorindex :: int
  varbinds :: "varbind list"

datatype request =
    Get "oid list"
  | GetNext "oid list"
  | GetBulk "oid list" int int
  | Trap "int \<times> int" oid "(oid \<times> snmp_value) list"

text \<open>
  How a command ends: \<open>usage()\<close>, \<open>errx(1, msg)\<close>, \<open>err(1, msg)\<close> (the message without
  the text of \<open>errno\<close>), a NULL pointer dereference, a read of \<open>argv\<close> outside the array
  (at the given index), a freed pointer handed to the allocator again, or a return from
  the command. The last three exits are undefined behaviour in C: the run is followed up
  to that point and no further.
\<close>

datatype exit = Usage | Errx string | Err string | Segv | Out_of_bounds int | Use_after_free

datatype status = Exit exit | Return int

text \<open>What a command does to the outside, in order.\<close>

datatype event =
    Connected string string
  | Sent request
  | Printed varbind
  | Summary int

text \<open>The process-wide variables that \<open>main\<close> sets from the command line.\<close>

record globals =
  app_name :: string
  community :: string
  mib :: string
  version :: snmp_version
  print_summary :: bool
  walk_check_increase :: bool
  walk_fallback_oid :: bool
  walk_include_oid :: bool
  non_repeaters :: int
  max_repetitions :: int
  walk_end :: oid

text \<open>
  The collaborators of the client, outside the sources at hand: the MIB library
  (\<open>smi_string2oid\<close>, \<open>smi_oid2string\<close>, \<open>smi_print_element\<close>), \<open>inet_pton\<close>, the
  connection to the agent (\<open>snmpc_parseagent\<close> and \<open>snmp_connect_v12\<close> together: \<open>None\<close>
  is a connected agent, \<open>Some e\<close> the exit taken), \<open>pledge\<close>, the uptime clock, the
  allocator (whether a request of so many bytes, or of an array of so many
  \<open>struct ber_oid\<close>, is served), \<open>ber_printf_elements\<close> (whether the element is built),
  and the agent: its answer to the one request of a get command or to the GET of a walk,
  and the answers it gives, in order, to the GETNEXT or GETBULK requests of a walk, whatever
  they ask (\<open>None\<close> and the end of the list are a request that \<open>snmp_get\<close>,
  \<open>snmp_getnext\<close> or \<open>snmp_getbulk\<close> gives up on, returning NULL).
  \<open>smi_print_element\<close> gives the text of a value, \<open>None\<close> for NULL.
\<close>

record world =
  smi_string2oid :: "string \<Rightarrow> oid option"
  smi_oid2string :: "oid \<Rightarrow> string"
  smi_print_element :: "ber_element \<Rightarrow> string option"
  inet_pton :: "string \<Rightarrow> byte list option"
  agent_connect :: "string \<Rightarrow> string \<Rightarrow> exit option"
  pledge_ok :: bool
  clock_uptime :: "(int \<times> int) option"
  alloc_ok :: "nat \<Rightarrow> bool"
  alloc_oids :: "nat \<Rightarrow> bool"
  ber_printf_elements :: "oid \<Rightarrow> snmp_value \<Rightarrow> bool"
  agent_reply :: "request \<Rightarrow> pdu option"
  walk_replies :: "pdu list"

section \<open>The trap command\<close>

definition bad_value :: "string \<Rightarrow> string \<Rightarrow> exit" where
  \<comment> \<open>\<open>errx(1, "%s: Bad value notation (%s)", argv[i], argv[i + 2])\<close>\<close>
  "bad_value a v = Errx (a @ '': Bad value notation ('' @ v @ '')'')"

lemma scan_digits_suffix: "suffix (snd (scan_digits base s acc)) s"
  by (induction s arbitrary: acc) (auto intro: suffix_ConsI)

lemma skip_sign_suffix: "suffix (snd (skip_sign s)) s"
  by (cases s) (auto simp: skip_sign_def intro: suffix_ConsI)

lemma skip_0x_suffix: "suffix (skip_0x base s) s"
  by (auto simp: skip_0x_def suffix_def split: list.split)

lemma strtoll_endptr_suffix: "suffix (sr_endptr (strtoll s base)) s"
proof -
  let ?s2 = "snd (skip_sign (dropWhile isspace s))"
  have "suffix (snd (scan_digits base (skip_0x base ?s2) 0)) (skip_0x base ?s2)"
    by (rule scan_digits_suffix)
  also have "suffix (skip_0x base ?s2) ?s2"
    by (rule skip_0x_suffix)
  also have "suffix ?s2 (dropWhile isspace s)"
    by (rule skip_sign_suffix)
  also have "suffix (dropWhile isspace s) s"
    by (rule suffix_dropWhile)
  finally show ?thesis
    by (simp add: strtoll_def Let_def split_beta)
qed

lemma strtoll_endptr_length: "length (sr_endptr (strtoll s base)) \<le> length s"
  by (rule suffix_length_le [OF strtoll_endptr_suffix])

text \<open>
  The pointer \<open>str\<close> of \<open>snmpc_trap\<close>, as the allocator sees it. It is declared once for
  the whole command and starts as \<open>NULL\<close>. \<open>strdup\<close>, \<open>malloc\<close> and \<open>recallocarray\<close> make
  it point to a live buffer; \<open>free(str)\<close> at \<open>pastestring\<close> frees the buffer and leaves
  the pointer as it is, and nothing sets it back to \<open>NULL\<close>. \<open>free(NULL)\<close> does nothing;
  a freed pointer handed to \<open>free\<close> or to \<open>recallocarray\<close> once more is the exit
  \<open>Use_after_free\<close>.
\<close>

datatype pointer = NULL | Live | Freed

definition free :: "pointer \<Rightarrow> exit + pointer" where
  "free p = (case p of NULL \<Rightarrow> Inr NULL | Live \<Rightarrow> Inr Freed | Freed \<Rightarrow> Inl Use_after_free)"

text \<open>
  The \<open>do ... while (endstr[0] != '\0')\<close> loops of the cases \<open>'b'\<close>, \<open>'d'\<close> and
  \<open>'x'\<close>. One pass of the body either leaves the command (\<open>Leave\<close>), ends the loop
  (\<open>Done\<close>), or goes round again with a new \<open>tmpstr\<close> (\<open>Again\<close>); \<open>Done\<close> and \<open>Again\<close>
  carry what the pass has made of the buffer. The contents of the buffer \<open>str\<close> are the
  list of its first \<open>strl\<close> bytes.
\<close>

datatype 's pass = Leave exit | Done 's | Again string 's

text \<open>
  \<open>case 'b'\<close> does not allocate before its loop: \<open>strl\<close> is set to 0 and \<open>str\<close> is
  what the triples before have left. \<open>recallocarray(str, strl, byte + 1, 1)\<close> keeps the old
  bytes and appends zero bytes, and is handed the pointer \<open>p\<close>; \<open>str[byte] |= 0x80 >>
  (lval % 8)\<close> sets one bit. The loop carries the pointer and the contents.
\<close>

definition bits_pass ::
  "world \<Rightarrow> string \<Rightarrow> string \<Rightarrow> string \<Rightarrow> pointer \<Rightarrow> byte list \<Rightarrow> (pointer \<times> byte list) pass"
where
  "bits_pass w a v tmpstr p str =
     (let lval = sr_value (strtoll tmpstr 10); endstr = sr_endptr (strtoll tmpstr 10) in
      if endstr \<noteq> [] \<and> hd endstr \<noteq> CHR '' '' \<and> hd endstr \<noteq> CHR 0x09 \<and> hd endstr \<noteq> CHR '',''
      then Leave (bad_value a v)
      else if endstr = tmpstr
      then (if endstr = [] then Done (p, str) else Again (tl tmpstr) (p, str))
      else if lval < 0 then Leave (bad_value a v)
      else
        (let byte = nat (lval div 8) in
         if byte \<ge> length str \<and> p = Freed then Leave Use_after_free
         else if byte \<ge> length str \<and> \<not> alloc_ok w (byte + 1) then Leave (Err ''malloc'')
         else
           (let p1 = (if byte \<ge> length str then Live else p);
                str1 = (if byte \<ge> length str then str @ replicate (byte + 1 - length str) 0
                        else str);
                str2 = str1[byte := (str1 ! byte) OR drop_bit (nat (lval mod 8)) 0x80]
            in if endstr = [] then Done (p1, str2) else Again (tl endstr) (p1, str2))))"

lemma bits_pass_shorter:
  assumes "bits_pass w a v tmpstr p str = Again t s"
  shows "length t < length tmpstr"
proof -
  let ?e = "sr_endptr (strtoll tmpstr 10)"
  have le: "length ?e \<le> length tmpstr"
    by (rule strtoll_endptr_length)
  from assms have ne: "?e \<noteq> []" and t: "(t = tl tmpstr \<and> ?e = tmpstr) \<or> t = tl ?e"
    by (simp_all add: bits_pass_def Let_def split: if_splits)
  from ne have "length (tl ?e) < length ?e"
    by (cases ?e) simp_all
  with le have "length (tl ?e) < length tmpstr"
    by linarith
  with t show ?thesis
    by auto
qed

function trap_bits ::
  "world \<Rightarrow> string \<Rightarrow> string \<Rightarrow> string \<Rightarrow> pointer \<Rightarrow> byte list \<Rightarrow> exit + pointer \<times> byte list"
where
  "trap_bits w a v tmpstr p str =
     (case bits_pass w a v tmpstr p str of
        Leave e \<Rightarrow> Inl e
      | Done s \<Rightarrow> Inr s
      | Again t s \<Rightarrow> trap_bits w a v t (fst s) (snd s))"
  by pat_completeness auto
termination
proof (relation "measure (\<lambda>(w, a, v, tmpstr, p, str). length tmpstr)", goal_cases)
  case 1
  show ?case by simp
next
  case (2 w a v tmpstr p str t s)
  then show ?case by (simp add: bits_pass_shorter)
qed

declare trap_bits.simps [simp del]

text \<open>
  \<open>case 'd'\<close> (base 10) and \<open>case 'x'\<close> (base 16): the two loops are the same text up to
  the base. \<open>str[strl++] = (unsigned char) lval\<close> appends one byte. Both cases allocate
  before the loop, so the pointer is live throughout and the loop carries the contents
  only.
\<close>

definition octets_pass :: "nat \<Rightarrow> string \<Rightarrow> string \<Rightarrow> string \<Rightarrow> byte list \<Rightarrow> byte list pass" where
  "octets_pass base a v tmpstr str =
     (let lval = sr_value (strtoll tmpstr base); endstr = sr_endptr (strtoll tmpstr base) in
      if endstr \<noteq> [] \<and> hd endstr \<noteq> CHR '' '' \<and> hd endstr \<noteq> CHR 0x09
      then Leave (bad_value a v)
      else if endstr = tmpstr
      then (if endstr = [] then Done str else Again (tl tmpstr) str)
      else if lval < 0 \<or> lval > 0xff then Leave (bad_value a v)
      else
        (let str1 = str @ [word_of_int lval]
         in if endstr = [] then Done str1 else Again (tl endstr) str1))"

lemma octets_pass_shorter:
  assumes "octets_pass base a v tmpstr str = Again t s"
  shows "length t < length tmpstr"
proof -
  let ?e = "sr_endptr (strtoll tmpstr base)"
  have le: "length ?e \<le> length tmpstr"
    by (rule strtoll_endptr_length)
  from assms have ne: "?e \<noteq> []" and t: "(t = tl tmpstr \<and> ?e = tmpstr) \<or> t = tl ?e"
    by (simp_all add: octets_pass_def Let_def split: if_splits)
  from ne have "length (tl ?e) < length ?e"
    by (cases ?e) simp_all
  with le have "length (tl ?e) < length tmpstr"
    by linarith
  with t show ?thesis
    by auto
qed

function trap_octets :: "nat \<Rightarrow> string \<Rightarrow> string \<Rightarrow> string \<Rightarrow> byte list \<Rightarrow> exit + byte list" where
  "trap_octets base a v tmpstr str =
     (case octets_pass base a v tmpstr str of
        Leave e \<Rightarrow> Inl e
      | Done s \<Rightarrow> Inr s
      | Again t s \<Rightarrow> trap_octets base a v t s)"
  by pat_completeness auto
termination
proof (relation "measure (\<lambda>(base, a, v, tmpstr, str). length tmpstr)", goal_cases)
  case 1
  show ?case by simp
next
  case (2 base a v tmpstr str t s)
  then show ?case by (simp add: octets_pass_shorter)
qed

declare trap_octets.simps [simp del]

text \<open>
  \<open>trap_value\<close> is the \<open>switch (argv[i + 1][0])\<close> up to the value that is handed to
  \<open>ber_printf_elements\<close>: \<open>p\<close> is the pointer \<open>str\<close> as the triples before have left it,
  \<open>a\<close> is \<open>argv[i]\<close>, \<open>t\<close> is \<open>argv[i + 1]\<close> and \<open>v\<close> is \<open>argv[i + 2]\<close>. The result is
  the value and the pointer \<open>str\<close> at that point. An empty \<open>t\<close> has \<open>'\0'\<close> as its first
  character and takes the default branch. \<open>inet_pton\<close> with \<open>AF_INET\<close> returns 0
  (\<open>None\<close>) or 1.
\<close>

definition trap_value ::
  "world \<Rightarrow> pointer \<Rightarrow> string \<Rightarrow> string \<Rightarrow> string \<Rightarrow> exit + snmp_value \<times> pointer"
where
  "trap_value w p a t v =
     (case t of
        [] \<Rightarrow> Inl Usage
      | c # _ \<Rightarrow>
          if c = CHR ''a'' then
            (case inet_pton w v of
               None \<Rightarrow> Inl (bad_value a v)
             | Some addr \<Rightarrow> Inr (IpAddress addr, p))
          else if c = CHR ''b'' then
            (case trap_bits w a v v p [] of
               Inl e \<Rightarrow> Inl e
             | Inr s \<Rightarrow> Inr (OctetString (snd s), fst s))
          else if c = CHR ''c'' then
            (case strtonum v INT32_MIN INT32_MAX of
               Inl errstr \<Rightarrow> Inl (bad_value a v)
             | Inr lval \<Rightarrow> Inr (Counter32 lval, p))
          else if c = CHR ''d'' then
            (if \<not> alloc_ok w (length v) then Inl (Err ''malloc'')
             else case trap_octets 10 a v v [] of
               Inl e \<Rightarrow> Inl e
             | Inr str \<Rightarrow> Inr (OctetString str, Live))
          else if c = CHR ''u'' \<or> c = CHR ''i'' then
            (case strtonum v LLONG_MIN LLONG_MAX of
               Inl errstr \<Rightarrow> Inl (bad_value a v)
             | Inr lval \<Rightarrow> Inr (Integer lval, p))
          else if c = CHR ''n'' then Inr (Null, p)
          else if c = CHR ''o'' then
            (case smi_string2oid w v of
               None \<Rightarrow>
                 Inl (Errx (a @ '': Unknown Object Identifier (Sub-id not found: (top) -> ''
                            @ v @ '')''))
             | Some oidval \<Rightarrow> Inr (ObjectIdentifier oidval, p))
          else if c = CHR ''s'' then
            (if \<not> alloc_ok w (length v + 1) then Inl (Err [])
             else Inr (OctetString (map of_char v), Live))
          else if c = CHR ''t'' then
            (case strtonum v LLONG_MIN LLONG_MAX of
               Inl errstr \<Rightarrow> Inl (bad_value a v)
             | Inr lval \<Rightarrow> Inr (TimeTicks lval, p))
          else if c = CHR ''x'' then
            (if \<not> alloc_ok w (length v) then Inl (Err ''malloc'')
             else case trap_octets 16 a v v [] of
               Inl e \<Rightarrow> Inl e
             | Inr str \<Rightarrow> Inr (OctetString str, Live))
          else Inl Usage)"

text \<open>
  The cases that end at the label \<open>pastestring\<close>: \<open>'b'\<close>, \<open>'d'\<close> and \<open>'x'\<close> by
  \<open>goto\<close>, and \<open>'s'\<close>, which holds the label. There \<open>str\<close> is freed after the element has
  been built; the other cases leave \<open>str\<close> alone.
\<close>

definition pastestring :: "string \<Rightarrow> bool" where
  "pastestring t =
     (case t of
        [] \<Rightarrow> False
      | c # _ \<Rightarrow> c = CHR ''b'' \<or> c = CHR ''d'' \<or> c = CHR ''s'' \<or> c = CHR ''x'')"

text \<open>
  One pass of the \<open>for\<close> loop of \<open>snmpc_trap\<close>: the OID, the value, the new element, and
  \<open>free(str)\<close> at \<open>pastestring\<close>. The result is the new binding and the pointer \<open>str\<close>
  as the pass leaves it.
\<close>

definition trap_varbind ::
  "world \<Rightarrow> pointer \<Rightarrow> string \<Rightarrow> string \<Rightarrow> string \<Rightarrow> exit + (oid \<times> snmp_value) \<times> pointer"
where
  "trap_varbind w p a t v =
     (case smi_string2oid w a of
        None \<Rightarrow> Inl (Errx (''Invalid oid: '' @ a @ [CHR 0x0A]))
      | Some oid \<Rightarrow>
          (case trap_value w p a t v of
             Inl e \<Rightarrow> Inl e
           | Inr r \<Rightarrow>
               if \<not> ber_printf_elements w oid (fst r) then Inl (Err ''ber_printf_elements'')
               else if pastestring t then
                 (case free (snd r) of
                    Inl e \<Rightarrow> Inl e
                  | Inr p' \<Rightarrow> Inr ((oid, fst r), p'))
               else Inr ((oid, fst r), snd r)))"

text \<open>
  The \<open>for (i = 0; i < argc; i += 3)\<close> loop over the arguments after the trap OID, from
  the pointer \<open>str\<close> as it stands. The command has checked that the number of arguments
  is a multiple of 3, so the last equation is only reached at the end of the list.
\<close>

fun trap_varbinds ::
  "world \<Rightarrow> pointer \<Rightarrow> string list \<Rightarrow> exit + (oid \<times> snmp_value) list"
where
  "trap_varbinds w p (a # t # v # rest) =
     (case trap_varbind w p a t v of
        Inl e \<Rightarrow> Inl e
      | Inr r \<Rightarrow>
          (case trap_varbinds w (snd r) rest of
             Inl e \<Rightarrow> Inl e
           | Inr vbs \<Rightarrow> Inr (fst r # vbs)))"
| "trap_varbinds w p _ = Inr []"

definition trap_uptime :: "world \<Rightarrow> string \<Rightarrow> exit + (int \<times> int)" where
  \<comment> \<open>\<open>argv[1]\<close>: empty for the uptime clock, else hundredths of a second.\<close>
  "trap_uptime w s =
     (if s = [] then
        (case clock_uptime w of
           None \<Rightarrow> Inl (Err ''clock_gettime'')
         | Some ts \<Rightarrow> Inr ts)
      else
        (case strtonum s 0 LLONG_MAX of
           Inl errstr \<Rightarrow> Inl (Errx (''Bad value notation ('' @ s @ '')''))
         | Inr lval \<Rightarrow> Inr (lval div 100, (lval mod 100) * 10000000)))"

definition snmpc_trap :: "globals \<Rightarrow> world \<Rightarrow> string list \<Rightarrow> event list \<times> status" where
  \<comment> \<open>\<open>char *str = NULL\<close>: the loop over the triples starts from the NULL pointer.\<close>
  "snmpc_trap g w argv =
     (if length argv < 3 \<or> length argv mod 3 \<noteq> 0 then ([], Exit Usage)
      else if version g = SNMP_V1 then ([], Exit (Errx ''trap is not supported for snmp v1''))
      else
        (case agent_connect w (argv ! 0) ''162'' of
           Some e \<Rightarrow> ([], Exit e)
         | None \<Rightarrow>
             if \<not> pledge_ok w then ([Connected (argv ! 0) ''162''], Exit (Err ''pledge''))
             else
               (case trap_uptime w (argv ! 1) of
                  Inl e \<Rightarrow> ([Connected (argv ! 0) ''162''], Exit e)
                | Inr ts \<Rightarrow>
                    (case smi_string2oid w (argv ! 2) of
                       None \<Rightarrow>
                         ([Connected (argv ! 0) ''162''],
                          Exit (Errx (''Invalid oid: '' @ argv ! 2 @ [CHR 0x0A])))
                     | Some trapoid \<Rightarrow>
                         (case trap_varbinds w NULL (drop 3 argv) of
                            Inl e \<Rightarrow> ([Connected (argv ! 0) ''162''], Exit e)
                          | Inr pdu \<Rightarrow>
                              ([Connected (argv ! 0) ''162'', Sent (Trap ts trapoid pdu)],
                               Return 0))))))"

section \<open>Object identifiers and error reports\<close>

fun ber_oid_cmp :: "oid \<Rightarrow> oid \<Rightarrow> int" where
  \<comment> \<open>Modelled from the spec: \<open>ber_oid_cmp\<close> is a function of the BER library, outside the
      sources at hand. The spec's \<open>compare\<close> is lexicographic, component by component, a
      strict prefix being an ancestor and less. The results follow the way \<open>snmpc_walk\<close>
      reads them: for \<open>ber_oid_cmp(a, b)\<close>, 0 is \<open>a = b\<close>, 2 is \<open>b\<close> below \<open>a\<close> in
      the tree, \<open>-1\<close> is \<open>b\<close> less than \<open>a\<close> ("OID not increasing"), 1 is \<open>b\<close> greater
      than \<open>a\<close> and not below it.\<close>
  "ber_oid_cmp [] [] = 0"
| "ber_oid_cmp [] (y # ys) = 2"
| "ber_oid_cmp (x # xs) [] = - 1"
| "ber_oid_cmp (x # xs) (y # ys) =
     (if x = y then ber_oid_cmp xs ys else if x < y then 1 else - 1)"

definition BER_CLASS_CONTEXT :: nat where
  \<comment> \<open>Modelled from the spec: the constants of \<open>ber.h\<close>, outside the sources at hand. The
      spec's end-of-subtree marker is the value whose class is \<open>BER_CLASS_CONTEXT\<close> and
      whose type is \<open>BER_TYPE_EOC\<close>; the numbers are the tag class and tag number of BER.\<close>
  "BER_CLASS_CONTEXT = 2"

definition BER_TYPE_EOC :: nat where
  "BER_TYPE_EOC = 0"

fun dec_nat :: "nat \<Rightarrow> string" where
  "dec_nat n = (if n < 10 then [char_of (48 + n)] else dec_nat (n div 10) @ [char_of (48 + n mod 10)])"

declare dec_nat.simps [simp del]

definition dec_int :: "int \<Rightarrow> string" where
  \<comment> \<open>The text of \<open>%d\<close>.\<close>
  "dec_int i = (if i < 0 then CHR ''-'' # dec_nat (nat (- i)) else dec_nat (nat i))"

definition snmpc_printerror :: "int \<Rightarrow> string \<Rightarrow> exit" where
  \<comment> \<open>Modelled from the spec, for the numbers of \<open>enum snmp_error\<close> only (\<open>snmp.h\<close> is
      outside the sources at hand): the spec lists the error codes in their protocol order,
      1 for too-big up to 18 for inconsistent-name. The messages are the source's.\<close>
  "snmpc_printerror error oid =
     (if error = 0 then Errx ''No error, how did I get here?''
      else Errx (''Can't parse oid '' @ oid @ '': '' @
        (if error = 1 then ''Response too big''
         else if error = 2 then ''No such object''
         else if error = 3 then ''Bad value''
         else if error = 4 then ''Read only''
         else if error = 5 then ''Generic error''
         else if error = 6 then ''Access denied''
         else if error = 7 then ''Wrong type''
         else if error = 8 then ''Wrong length''
         else if error = 9 then ''Wrong encoding''
         else if error = 10 then ''Wrong value''
         else if error = 11 then ''Can't be created''
         else if error = 12 then ''Inconsistent value''
         else if error = 13 then ''Resource unavailable''
         else if error = 14 then ''Commit failed''
         else if error = 15 then ''Undo faild''
         else if error = 16 then ''Authorization error''
         else if error = 17 then ''Not writable''
         else if error = 18 then ''Inconsistent name''
         else ''Unknown error ('' @ dec_int error @ '')'')))"

text \<open>
  \<open>argv[i]\<close> for an \<open>argv\<close> that points \<open>shift\<close> places into the array of the command's
  arguments: an argument, the NULL that ends the array, or a place outside the array.
  \<open>snmpc_printerror(error, argv[i])\<close> prints a NULL string as \<open>(null)\<close>.
\<close>

datatype slot = Arg string | Null_slot | Outside int

definition argv_at :: "nat \<Rightarrow> string list \<Rightarrow> int \<Rightarrow> slot" where
  "argv_at shift argv i =
     (let k = int shift + i in
      if 0 \<le> k \<and> k < int (length argv) then Arg (argv ! nat k)
      else if k = int (length argv) then Null_slot
      else Outside i)"

definition printerror_at :: "int \<Rightarrow> slot \<Rightarrow> exit" where
  "printerror_at error sl =
     (case sl of
        Arg s \<Rightarrow> snmpc_printerror error s
      | Null_slot \<Rightarrow> snmpc_printerror error ''(null)''
      | Outside i \<Rightarrow> Out_of_bounds i)"

text \<open>
  \<open>snmpc_print\<close> as far as the command sees it: the binding is printed, or the value has
  no text and the command leaves with \<open>err(1, "Can't print response")\<close>.
\<close>

definition snmpc_print :: "world \<Rightarrow> varbind \<Rightarrow> bool" where
  "snmpc_print w vb = (smi_print_element w (snd vb) \<noteq> None)"

section \<open>The get, getnext and bulkget commands\<close>

fun string2oids :: "world \<Rightarrow> string list \<Rightarrow> oid list option" where
  "string2oids w [] = Some []"
| "string2oids w (a # as) =
     (case smi_string2oid w a of
        None \<Rightarrow> None
      | Some oid \<Rightarrow> (case string2oids w as of None \<Rightarrow> None | Some oids \<Rightarrow> Some (oid # oids)))"

fun print_varbinds :: "world \<Rightarrow> varbind list \<Rightarrow> event list \<times> status" where
  "print_varbinds w [] = ([], Return 0)"
| "print_varbinds w (vb # vbs) =
     (if \<not> snmpc_print w vb then ([], Exit (Err ''Can't print response''))
      else (case print_varbinds w vbs of (ev, st) \<Rightarrow> (Printed vb # ev, st)))"

text \<open>
  \<open>snmpc_get\<close> with the arguments behind the options, the agent first. After
  \<open>argc--; argv++\<close> the OIDs are \<open>argv[0..argc-1]\<close>, so \<open>argv\<close> points one place into the
  array.
\<close>

definition get_request :: "globals \<Rightarrow> oid list \<Rightarrow> exit + request" where
  "get_request g oids =
     (if app_name g = ''getnext'' then Inr (GetNext oids)
      else if app_name g = ''bulkget'' then
        (if version g = SNMP_V1 then Inl (Errx ''Cannot send V2 PDU on V1 session'')
         else if non_repeaters g > int (length oids)
         then Inl (Errx ''need more objects than -Cn<num>'')
         else Inr (GetBulk oids (non_repeaters g) (max_repetitions g)))
      else Inr (Get oids))"

definition get_name :: "globals \<Rightarrow> string" where
  "get_name g =
     (if app_name g = ''getnext'' then ''getnext''
      else if app_name g = ''bulkget'' then ''bulkget'' else ''get'')"

definition snmpc_get :: "globals \<Rightarrow> world \<Rightarrow> string list \<Rightarrow> event list \<times> status" where
  "snmpc_get g w argv =
     (if length argv < 2 then ([], Exit Usage)
      else
        (case agent_connect w (argv ! 0) ''161'' of
           Some e \<Rightarrow> ([], Exit e)
         | None \<Rightarrow>
             if \<not> pledge_ok w then ([Connected (argv ! 0) ''161''], Exit (Err ''pledge''))
             else if \<not> alloc_oids w (length argv - 1)
             then ([Connected (argv ! 0) ''161''], Exit (Err ''malloc''))
             else
               (case string2oids w (tl argv) of
                  None \<Rightarrow>
                    ([Connected (argv ! 0) ''161''],
                     Exit (Errx (argv ! 1 @ '': Unknown object identifier'')))
                | Some oid \<Rightarrow>
                    (case get_request g oid of
                       Inl e \<Rightarrow> ([Connected (argv ! 0) ''161''], Exit e)
                     | Inr req \<Rightarrow>
                         (case agent_reply w req of
                            None \<Rightarrow>
                              ([Connected (argv ! 0) ''161'', Sent req], Exit (Err (get_name g)))
                          | Some pdu \<Rightarrow>
                              if errorstatus pdu \<noteq> 0
                              then ([Connected (argv ! 0) ''161'', Sent req],
                                    Exit (printerror_at (errorstatus pdu)
                                            (argv_at 1 argv (errorindex pdu - 1))))
                              else
                                (case print_varbinds w (varbinds pdu) of
                                   (ev, st) \<Rightarrow>
                                     (Connected (argv ! 0) ''161'' # Sent req # ev, st)))))))"

section \<open>The walk and bulkwalk commands\<close>

definition is_eoc :: "ber_element \<Rightarrow> bool" where
  \<comment> \<open>\<open>value->be_class == BER_CLASS_CONTEXT && value->be_type == BER_TYPE_EOC\<close>\<close>
  "is_eoc val = (be_class val = BER_CLASS_CONTEXT \<and> be_type val = BER_TYPE_EOC)"

definition walk_request :: "globals \<Rightarrow> oid \<Rightarrow> request" where
  "walk_request g noid =
     (if app_name g = ''bulkwalk'' then GetBulk [noid] (non_repeaters g) (max_repetitions g)
      else GetNext [noid])"

definition walk_name :: "globals \<Rightarrow> string" where
  "walk_name g = (if app_name g = ''bulkwalk'' then ''bulkwalk'' else ''walk'')"

text \<open>
  The \<open>for (; varbind != NULL; varbind = varbind->be_next)\<close> loop over the bindings of one
  reply. \<open>oid\<close> is the root, \<open>loid\<close> the OID that was asked for, \<open>noid\<close> the variable the
  bindings are read into. The result is what was printed, how many bindings were counted,
  and either the exit taken or whether the loop was left by \<open>break\<close> (\<open>varbind != NULL\<close>)
  together with \<open>noid\<close>.
\<close>

fun walk_varbinds ::
  "globals \<Rightarrow> world \<Rightarrow> oid \<Rightarrow> oid \<Rightarrow> oid \<Rightarrow> varbind list \<Rightarrow> event list \<times> nat \<times> (exit + bool \<times> oid)"
where
  "walk_varbinds g w oid loid noid [] = ([], 0, Inr (False, noid))"
| "walk_varbinds g w oid loid noid (vb # rest) =
     (if is_eoc (snd vb) then ([], 0, Inr (True, fst vb))
      else if walk_check_increase g \<and> ber_oid_cmp loid (fst vb) = - 1
      then ([], 0, Inl (Errx ''OID not increasing''))
      else if ber_oid_cmp loid (fst vb) = 0 \<or> ber_oid_cmp oid (fst vb) \<noteq> 2
      then ([], 0, Inr (True, fst vb))
      else if walk_end g \<noteq> [] \<and> ber_oid_cmp (walk_end g) (fst vb) \<noteq> - 1
      then ([], 0, Inr (True, fst vb))
      else if \<not> snmpc_print w vb then ([], 0, Inl (Err ''Can't print response''))
      else
        (case walk_varbinds g w oid loid (fst vb) rest of
           (ev, n, r) \<Rightarrow> (Printed vb # ev, Suc n, r)))"

text \<open>
  The \<open>while (1)\<close> loop: one request per pass, answered by the next reply of the agent.
  The result is the events, the number of bindings counted and the exit taken, if any.
\<close>

fun walk_loop ::
  "globals \<Rightarrow> world \<Rightarrow> oid \<Rightarrow> oid \<Rightarrow> pdu list \<Rightarrow> event list \<times> nat \<times> exit option"
where
  "walk_loop g w oid noid [] = ([Sent (walk_request g noid)], 0, Some (Err (walk_name g)))"
| "walk_loop g w oid noid (pdu # replies) =
     (if errorstatus pdu \<noteq> 0
      then ([Sent (walk_request g noid)], 0,
            Some (snmpc_printerror (errorstatus pdu) (smi_oid2string w noid)))
      else
        (case walk_varbinds g w oid noid noid (varbinds pdu) of
           (ev, n, Inl e) \<Rightarrow> (Sent (walk_request g noid) # ev, n, Some e)
         | (ev, n, Inr (True, noid')) \<Rightarrow> (Sent (walk_request g noid) # ev, n, None)
         | (ev, n, Inr (False, noid')) \<Rightarrow>
             (case walk_loop g w oid noid' replies of
                (ev', n', r) \<Rightarrow> (Sent (walk_request g noid) # ev @ ev', n + n', r))))"

text \<open>
  The GET of the root, which the command has twice in the same words: before the loop
  under \<open>walk_include_oid\<close>, and after it under \<open>walk_fallback_oid && n == 0\<close>. Here
  \<open>argv\<close> still points at the agent. Only the first binding of the reply is printed; a
  reply without bindings hands NULL to \<open>snmpc_print\<close>.
\<close>

definition walk_get :: "globals \<Rightarrow> world \<Rightarrow> string list \<Rightarrow> oid \<Rightarrow> event list \<times> exit option" where
  "walk_get g w argv oid =
     (case agent_reply w (Get [oid]) of
        None \<Rightarrow> ([Sent (Get [oid])], Some (Err (app_name g)))
      | Some pdu \<Rightarrow>
          if errorstatus pdu \<noteq> 0
          then ([Sent (Get [oid])],
                Some (printerror_at (errorstatus pdu) (argv_at 0 argv (errorindex pdu - 1))))
          else
            (case varbinds pdu of
               [] \<Rightarrow> ([Sent (Get [oid])], Some Segv)
             | vb # _ \<Rightarrow>
                 if \<not> snmpc_print w vb
                 then ([Sent (Get [oid])], Some (Err ''Can't print response''))
                 else ([Sent (Get [oid]), Printed vb], None)))"

text \<open>
  The command from the parsed root on: the optional GET, the loop, the optional GET, the
  summary. The times of \<open>print_time\<close> are left out.
\<close>

definition walk_from :: "globals \<Rightarrow> world \<Rightarrow> string list \<Rightarrow> oid \<Rightarrow> event list \<times> status" where
  "walk_from g w argv oid =
     (case (if walk_include_oid g then walk_get g w argv oid else ([], None)) of
        (ev0, Some e) \<Rightarrow> (ev0, Exit e)
      | (ev0, None) \<Rightarrow>
          (case walk_loop g w oid oid (walk_replies w) of
             (ev1, n1, Some e) \<Rightarrow> (ev0 @ ev1, Exit e)
           | (ev1, n1, None) \<Rightarrow>
               (let n = (if walk_include_oid g then 1 else 0) + n1 in
                case (if walk_fallback_oid g \<and> n = 0 then walk_get g w argv oid
                      else ([], None)) of
                  (ev2, Some e) \<Rightarrow> (ev0 @ ev1 @ ev2, Exit e)
                | (ev2, None) \<Rightarrow>
                    (let n' = (if walk_fallback_oid g \<and> n = 0 then n + 1 else n) in
                     (ev0 @ ev1 @ ev2 @ (if print_summary g then [Summary (int n')] else []),
                      Return 0)))))"

definition snmpc_walk :: "globals \<Rightarrow> world \<Rightarrow> string list \<Rightarrow> event list \<times> status" where
  "snmpc_walk g w argv =
     (if app_name g = ''bulkwalk'' \<and> version g = SNMP_V1
      then ([], Exit (Errx ''Cannot send V2 PDU on V1 session''))
      else if length argv < 1 \<or> length argv > 2 then ([], Exit Usage)
      else
        (case agent_connect w (argv ! 0) ''161'' of
           Some e \<Rightarrow> ([], Exit e)
         | None \<Rightarrow>
             if \<not> pledge_ok w then ([Connected (argv ! 0) ''161''], Exit (Err ''pledge''))
             else
               (case smi_string2oid w (if length argv = 1 then mib g else argv ! 1) of
                  None \<Rightarrow>
                    ([Connected (argv ! 0) ''161''],
                     Exit (Errx ((if length argv = 1 then mib g else argv ! 1)
                                 @ '': Unknown object identifier'')))
                | Some oid \<Rightarrow>
                    (case walk_from g w argv oid of
                       (ev, st) \<Rightarrow> (Connected (argv ! 0) ''161'' # ev, st)))))"

section \<open>Vocabulary of the properties\<close>

text \<open>
  The initial values of the process-wide variables, for the command named.
\<close>

definition default_globals :: "string \<Rightarrow> globals" where
  "default_globals name =
     \<lparr>app_name = name, community = ''public'', mib = ''mib_2'', version = SNMP_V2C,
      print_summary = False, walk_check_increase = True, walk_fallback_oid = True,
      walk_include_oid = False, non_repeaters = 0, max_repetitions = 10, walk_end = []\<rparr>"

text \<open>
  The separators of the literals: blanks for the tags \<open>d\<close> and \<open>x\<close>, blanks and the comma for
  the tag \<open>b\<close>. A token is a run of digits of the base; \<open>digits_value\<close> is the number it
  denotes. \<open>converts s base\<close> says that \<open>strtoll\<close> finds a number at the front of \<open>s\<close>.
\<close>

definition is_blank :: "char \<Rightarrow> bool" where
  "is_blank c = (c = CHR '' '' \<or> c = CHR 0x09)"

definition is_sep :: "char \<Rightarrow> bool" where
  "is_sep c = (is_blank c \<or> c = CHR '','')"

definition digits_value :: "nat \<Rightarrow> string \<Rightarrow> nat" where
  "digits_value base ds = foldl (\<lambda>acc c. acc * base + the (digit_of c)) 0 ds"

definition is_token :: "nat \<Rightarrow> nat \<Rightarrow> string \<Rightarrow> bool" where
  "is_token base limit tok =
     (tok \<noteq> [] \<and> list_all (is_digit base) tok \<and> digits_value base tok \<le> limit)"

definition converts :: "string \<Rightarrow> nat \<Rightarrow> bool" where
  "converts s base =
     (let s3 = skip_0x base (snd (skip_sign (dropWhile isspace s)))
      in s3 \<noteq> [] \<and> is_digit base (hd s3))"

text \<open>
  A word is a piece of a literal between blanks: it is not empty, has no blank in it and
  does not start with white space. \<open>byte_token base tok\<close> reads a word as one number of
  the base within 0..255, the way the C library reads a number: an optional sign, for
  base 16 an optional \<open>0x\<close> in front of a hexadecimal digit, then digits of the base up to
  the end of the word; \<open>None\<close> when the word is not of that form or the number is not
  within 0..255 (a minus sign goes with zero only).
\<close>

definition is_word :: "string \<Rightarrow> bool" where
  "is_word tok = (tok \<noteq> [] \<and> \<not> isspace (hd tok) \<and> list_all (\<lambda>c. \<not> is_blank c) tok)"

definition byte_token :: "nat \<Rightarrow> string \<Rightarrow> nat option" where
  "byte_token base tok =
     (let ds = skip_0x base (snd (skip_sign tok)) in
      if ds \<noteq> [] \<and> list_all (is_digit base) ds \<and> digits_value base ds \<le> 255 \<and>
         (if fst (skip_sign tok) then digits_value base ds = 0 else True)
      then Some (digits_value base ds) else None)"

text \<open>
  A literal laid out as tokens, each followed by a run of separators; the run may be empty
  after the last token only.
\<close>

fun layout :: "(string \<times> string) list \<Rightarrow> string" where
  "layout [] = []"
| "layout ((tok, run) # rest) = tok @ run @ layout rest"

fun well_separated :: "(char \<Rightarrow> bool) \<Rightarrow> (string \<times> string) list \<Rightarrow> bool" where
  "well_separated sep [] = True"
| "well_separated sep [(tok, run)] = list_all sep run"
| "well_separated sep ((tok, run) # rest) =
     (run \<noteq> [] \<and> list_all sep run \<and> well_separated sep rest)"

text \<open>
  The bit string of the tag \<open>b\<close>: \<open>set_bit_be i str\<close> is the buffer after bit \<open>i\<close> has been
  set (the buffer grown with zero bytes up to byte \<open>i div 8\<close> where it was shorter), and
  \<open>bit_at str i\<close> reads bit \<open>i\<close>, counted from the most significant bit of byte
  \<open>i div 8\<close>.
\<close>

definition set_bit_be :: "nat \<Rightarrow> byte list \<Rightarrow> byte list" where
  "set_bit_be i str =
     (let str1 = (if i div 8 \<ge> length str then str @ replicate (i div 8 + 1 - length str) 0
                  else str)
      in str1[i div 8 := (str1 ! (i div 8)) OR drop_bit (i mod 8) 0x80])"

definition bit_at :: "byte list \<Rightarrow> nat \<Rightarrow> bool" where
  "bit_at str i = (i div 8 < length str \<and> bit (str ! (i div 8)) (7 - i mod 8))"

text \<open>
  What a run printed and what it sent, read off its events.
\<close>

fun printed :: "event list \<Rightarrow> varbind list" where
  "printed [] = []"
| "printed (Printed vb # ev) = vb # printed ev"
| "printed (_ # ev) = printed ev"

fun requests :: "event list \<Rightarrow> request list" where
  "requests [] = []"
| "requests (Sent r # ev) = r # requests ev"
| "requests (_ # ev) = requests ev"

text \<open>
  A world for the examples: a MIB library that knows a few names, an agent that accepts
  the connection and answers nothing, an allocator and a BER library that never fail.
\<close>

fun dotted :: "oid \<Rightarrow> string" where
  "dotted [] = []"
| "dotted [n] = dec_nat n"
| "dotted (n # ns) = dec_nat n @ CHR ''.'' # dotted ns"

definition example_world :: world where
  "example_world =
     \<lparr>smi_string2oid =
        (\<lambda>s. if s = ''system'' then Some [1, 3, 6, 1, 2, 1, 1]
             else if s = ''sysDescr.0'' then Some [1, 3, 6, 1, 2, 1, 1, 1, 0]
             else if s = ''sysObjectID.0'' then Some [1, 3, 6, 1, 2, 1, 1, 2, 0]
             else if s = ''coldStart'' then Some [1, 3, 6, 1, 6, 3, 1, 1, 5, 1]
             else None),
      smi_oid2string = dotted,
      smi_print_element = (\<lambda>e. Some ''value''),
      inet_pton = (\<lambda>s. None),
      agent_connect = (\<lambda>agent port. None),
      pledge_ok = True,
      clock_uptime = Some (0, 0),
      alloc_ok = (\<lambda>n. True),
      alloc_oids = (\<lambda>n. True),
      ber_printf_elements = (\<lambda>oid val. True),
      agent_reply = (\<lambda>req. None),
      walk_replies = []\<rparr>"

text \<open>
  A signed decimal integer, as the tags \<open>c\<close>, \<open>u\<close>, \<open>i\<close> and \<open>t\<close> want it: optional white
  space, an optional sign, then decimal digits up to the end of the literal.
  \<open>signed_decimal s\<close> is the number, or \<open>None\<close> when \<open>s\<close> is not of that form.
\<close>

definition signed_decimal :: "string \<Rightarrow> int option" where
  "signed_decimal s =
     (case dropWhile isspace s of
        [] \<Rightarrow> None
      | c # cs \<Rightarrow>
          (let ds = (if c = CHR ''-'' \<or> c = CHR ''+'' then cs else c # cs) in
           if ds \<noteq> [] \<and> list_all (is_digit 10) ds
           then Some (if c = CHR ''-'' then - int (digits_value 10 ds)
                      else int (digits_value 10 ds))
           else None))"

text \<open>
  The order of object identifiers: \<open>oid_less a b\<close> is the lexicographic order, in which a
  strict prefix is less; \<open>strict_prefix a b\<close> says that \<open>b\<close> is a strict descendant of
  \<open>a\<close>.
\<close>

definition oid_less :: "oid \<Rightarrow> oid \<Rightarrow> bool" where
  "oid_less a b = ((a, b) \<in> lexord {(x, y). x < y})"

text \<open>
  A reply to a GETNEXT that carries one binding and no error. \<open>walk_accepts g w oid c vbs\<close>
  says that the bindings \<open>vbs\<close>, received one per reply from the cursor \<open>c\<close> on, are
  bindings the walk emits: each is a strict descendant of the root \<open>oid\<close>, its value is not
  the end marker and has a text, its OID is greater than the OID that was asked for (with
  \<open>walk_check_increase\<close> off: differs from it), and is below \<open>walk_end\<close> when that is set.
  \<open>walk_events g c vbs\<close> are the events of these round trips, and \<open>last_oid c vbs\<close> is the
  cursor after them.
\<close>

definition reply :: "varbind \<Rightarrow> pdu" where
  "reply vb = \<lparr>errorstatus = 0, errorindex = 0, varbinds = [vb]\<rparr>"

definition emits :: "globals \<Rightarrow> world \<Rightarrow> oid \<Rightarrow> oid \<Rightarrow> varbind \<Rightarrow> bool" where
  "emits g w oid c vb =
     (\<not> is_eoc (snd vb) \<and> strict_prefix oid (fst vb) \<and>
      (if walk_check_increase g then oid_less c (fst vb) else fst vb \<noteq> c) \<and>
      (walk_end g = [] \<or> oid_less (fst vb) (walk_end g)) \<and>
      snmpc_print w vb)"

fun walk_accepts :: "globals \<Rightarrow> world \<Rightarrow> oid \<Rightarrow> oid \<Rightarrow> varbind list \<Rightarrow> bool" where
  "walk_accepts g w oid c [] = True"
| "walk_accepts g w oid c (vb # vbs) = (emits g w oid c vb \<and> walk_accepts g w oid (fst vb) vbs)"

fun walk_events :: "globals \<Rightarrow> oid \<Rightarrow> varbind list \<Rightarrow> event list" where
  "walk_events g c [] = []"
| "walk_events g c (vb # vbs) = Sent (walk_request g c) # Printed vb # walk_events g (fst vb) vbs"

fun last_oid :: "oid \<Rightarrow> varbind list \<Rightarrow> oid" where
  "last_oid c [] = c"
| "last_oid c (vb # vbs) = last_oid (fst vb) vbs"

text \<open>
  Agents for the examples. \<open>subtree_world\<close> answers a walk of \<open>system\<close> with two bindings
  below it and then one outside. \<open>leaf_world\<close> answers a walk of \<open>sysDescr.0\<close> with the next
  object, which is outside, and a GET of \<open>sysDescr.0\<close> with its binding.
  \<open>repeating_world\<close> answers twice with the same OID, \<open>decreasing_world\<close> with a smaller
  OID the second time.
\<close>

definition octet_value :: ber_element where
  "octet_value = \<lparr>be_class = 0, be_type = 4, be_content = [0x75, 0x70]\<rparr>"

definition subtree_world :: world where
  "subtree_world = example_world
     \<lparr>walk_replies :=
        [reply ([1, 3, 6, 1, 2, 1, 1, 1], octet_value),
         reply ([1, 3, 6, 1, 2, 1, 1, 2], octet_value),
         reply ([1, 3, 6, 1, 2, 1, 2, 1], octet_value)]\<rparr>"

definition leaf_world :: world where
  "leaf_world = example_world
     \<lparr>agent_reply :=
        (\<lambda>req. if req = Get [[1, 3, 6, 1, 2, 1, 1, 1, 0]]
              then Some (reply ([1, 3, 6, 1, 2, 1, 1, 1, 0], octet_value)) else None),
      walk_replies := [reply ([1, 3, 6, 1, 2, 1, 1, 2, 0], octet_value)]\<rparr>"

definition repeating_world :: world where
  "repeating_world = example_world
     \<lparr>walk_replies :=
        [reply ([1, 3, 6, 1, 2, 1, 1, 1, 0], octet_value),
         reply ([1, 3, 6, 1, 2, 1, 1, 1, 0], octet_value)]\<rparr>"

definition decreasing_world :: world where
  "decreasing_world = example_world
     \<lparr>walk_replies :=
        [reply ([1, 3, 6, 1, 2, 1, 1, 2, 0], octet_value),
         reply ([1, 3, 6, 1, 2, 1, 1, 1, 0], octet_value),
         reply ([1, 3, 6, 1, 2, 1, 2, 1, 0], octet_value)]\<rparr>"

text \<open>
  What a GET of the root gives the walk: the first binding of the agent's answer, when the
  agent answers, the answer has no error status and the binding can be printed; \<open>None\<close>
  otherwise, and the command then exits at that GET.
\<close>

definition root_binding :: "world \<Rightarrow> oid \<Rightarrow> varbind option" where
  "root_binding w oid =
     (case agent_reply w (Get [oid]) of
        None \<Rightarrow> None
      | Some pdu \<Rightarrow>
          if errorstatus pdu \<noteq> 0 then None
          else
            (case varbinds pdu of
               [] \<Rightarrow> None
             | vb # _ \<Rightarrow> if snmpc_print w vb then Some vb else None))"

text \<open>
  An agent that answers the first GETNEXT of a walk with the error status 2 and no
  bindings.
\<close>

definition refusing_world :: world where
  "refusing_world = example_world
     \<lparr>walk_replies := [\<lparr>errorstatus = 2, errorindex = 1, varbinds = []\<rparr>]\<rparr>"

text \<open>
  An agent that answers every request with the given error status and error index and no
  bindings.
\<close>

definition error_world :: "int \<Rightarrow> int \<Rightarrow> world" where
  "error_world status idx = example_world
     \<lparr>agent_reply :=
        (\<lambda>req. Some \<lparr>errorstatus = status, errorindex = idx, varbinds = []\<rparr>)\<rparr>"

section \<open>Properties of the numeric conversions\<close>

lemma is_digit_not_space: "is_digit base c \<Longrightarrow> \<not> isspace c"
  by (auto simp: is_digit_def digit_of_def isspace_def Let_def split: if_splits option.splits)

lemma is_digit_not_sign: "is_digit base c \<Longrightarrow> c \<noteq> CHR ''-'' \<and> c \<noteq> CHR ''+''"
  by (auto simp: is_digit_def digit_of_def Let_def split: if_splits option.splits)

lemma is_digit_not_sep: "is_digit base c \<Longrightarrow> \<not> is_sep c"
  by (auto simp: is_digit_def digit_of_def is_sep_def is_blank_def Let_def
      split: if_splits option.splits)

lemma not_digit_x:
  "base \<le> 16 \<Longrightarrow> \<not> is_digit base CHR ''x''"
  "base \<le> 16 \<Longrightarrow> \<not> is_digit base CHR ''X''"
  by (simp_all add: is_digit_def digit_of_def)

lemma is_sep_not_x: "is_sep c \<Longrightarrow> c \<noteq> CHR ''x'' \<and> c \<noteq> CHR ''X''"
  by (auto simp: is_sep_def is_blank_def)

lemma is_blank_space: "is_blank c \<Longrightarrow> isspace c"
  by (auto simp: is_blank_def isspace_def)

lemma scan_digits_token:
  assumes "list_all (is_digit base) ds" and "rest = [] \<or> \<not> is_digit base (hd rest)"
  shows "scan_digits base (ds @ rest) acc
         = (foldl (\<lambda>acc c. acc * base + the (digit_of c)) acc ds, rest)"
  using assms
proof (induction ds arbitrary: acc)
  case Nil
  then show ?case by (cases rest) auto
next
  case (Cons d ds)
  then show ?case by simp
qed

lemma skip_sign_digit: "is_digit base c \<Longrightarrow> skip_sign (c # cs) = (False, c # cs)"
  by (auto simp: skip_sign_def dest: is_digit_not_sign)

lemma skip_0x_token:
  assumes "list_all (is_digit base) ds" "rest = [] \<or> is_sep (hd rest)" "base \<le> 16"
    "ds \<noteq> []"
  shows "skip_0x base (ds @ rest) = ds @ rest"
proof (cases "ds @ rest")
  case Nil
  then show ?thesis by (simp add: skip_0x_def)
next
  case (Cons c0 t)
  show ?thesis
  proof (cases t)
    case Nil
    with Cons show ?thesis by (simp add: skip_0x_def)
  next
    case (Cons cx t')
    have "cx \<noteq> CHR ''x'' \<and> cx \<noteq> CHR ''X''"
    proof (cases ds)
      case Nil
      with assms(4) show ?thesis
        by simp
    next
      case ds: (Cons d ds')
      show ?thesis
      proof (cases ds')
        case Nil
        with ds \<open>ds @ rest = c0 # t\<close> Cons assms(2) have "is_sep cx"
          by auto
        then show ?thesis by (rule is_sep_not_x)
      next
        case (Cons d' ds'')
        with ds \<open>ds @ rest = c0 # t\<close> \<open>t = cx # t'\<close> assms(1) have "is_digit base cx"
          by auto
        with assms(3) show ?thesis
          using not_digit_x by auto
      qed
    qed
    with Cons \<open>ds @ rest = c0 # t\<close> show ?thesis
      by (simp add: skip_0x_def split: list.split)
  qed
qed

lemma strtoll_token:
  assumes "ds \<noteq> []" "list_all (is_digit base) ds" "rest = [] \<or> is_sep (hd rest)"
    "base \<le> 16"
  shows "strtoll (ds @ rest) base =
         \<lparr>sr_value = min LLONG_MAX (int (digits_value base ds)), sr_endptr = rest,
          sr_erange = (LLONG_MAX < int (digits_value base ds))\<rparr>"
proof -
  from assms(1) obtain d ds' where ds: "ds = d # ds'"
    by (cases ds) auto
  with assms(2) have d: "is_digit base d"
    by simp
  then have s1: "dropWhile isspace (ds @ rest) = ds @ rest"
    using ds by (simp add: is_digit_not_space)
  have s2: "skip_sign (ds @ rest) = (False, ds @ rest)"
    using ds d by (simp add: skip_sign_digit)
  have s3: "skip_0x base (ds @ rest) = ds @ rest"
    by (rule skip_0x_token [OF assms(2,3,4,1)])
  from assms(3) have r: "rest = [] \<or> \<not> is_digit base (hd rest)"
    by (auto dest: is_digit_not_sep)
  have sc: "scan_digits base (ds @ rest) 0 = (digits_value base ds, rest)"
    unfolding digits_value_def by (rule scan_digits_token [OF assms(2) r])
  have v: "max LLONG_MIN (min LLONG_MAX (int (digits_value base ds)))
           = min LLONG_MAX (int (digits_value base ds))"
    by (simp add: LLONG_MIN_def LLONG_MAX_def max_def)
  have lo2: "\<not> int (digits_value base ds) < LLONG_MIN"
    by (simp add: LLONG_MIN_def)
  have hdd: "is_digit base (hd ds)"
    using ds d by simp
  show ?thesis
    using assms(1) hdd by (simp add: strtoll_def Let_def s1 s2 s3 sc v lo2)
qed

lemma strtoll_no_conversion:
  "\<not> converts s base \<Longrightarrow> strtoll s base = \<lparr>sr_value = 0, sr_endptr = s, sr_erange = False\<rparr>"
  by (auto simp: converts_def strtoll_def Let_def split_beta)

lemma scan_digits_consumes:
  "s \<noteq> [] \<Longrightarrow> is_digit base (hd s) \<Longrightarrow> length (snd (scan_digits base s acc)) < length s"
proof (cases s)
  case Nil
  assume "s \<noteq> []"
  with Nil show ?thesis by simp
next
  case (Cons c cs)
  assume "is_digit base (hd s)"
  with Cons have "snd (scan_digits base s acc) = snd (scan_digits base cs (acc * base + the (digit_of c)))"
    by simp
  moreover have "length (snd (scan_digits base cs (acc * base + the (digit_of c)))) \<le> length cs"
    by (rule suffix_length_le [OF scan_digits_suffix])
  ultimately show ?thesis
    using Cons by simp
qed

lemma strtoll_conversion_shorter:
  assumes "converts s base"
  shows "length (sr_endptr (strtoll s base)) < length s"
proof -
  let ?s2 = "snd (skip_sign (dropWhile isspace s))"
  let ?s3 = "skip_0x base ?s2"
  from assms have c: "?s3 \<noteq> []" "is_digit base (hd ?s3)"
    by (simp_all add: converts_def Let_def)
  then have "length (snd (scan_digits base ?s3 0)) < length ?s3"
    by (rule scan_digits_consumes)
  also have "length ?s3 \<le> length ?s2"
    by (rule suffix_length_le [OF skip_0x_suffix])
  also have "length ?s2 \<le> length (dropWhile isspace s)"
    by (rule suffix_length_le [OF skip_sign_suffix])
  also have "length (dropWhile isspace s) \<le> length s"
    by (rule length_dropWhile_le)
  finally show ?thesis
    using c by (simp add: strtoll_def Let_def split_beta)
qed

lemma converts_iff: "converts s base \<longleftrightarrow> sr_endptr (strtoll s base) \<noteq> s"
proof
  assume "converts s base"
  then have "length (sr_endptr (strtoll s base)) < length s"
    by (rule strtoll_conversion_shorter)
  then show "sr_endptr (strtoll s base) \<noteq> s"
    by auto
next
  assume ne: "sr_endptr (strtoll s base) \<noteq> s"
  show "converts s base"
  proof (rule ccontr)
    assume "\<not> converts s base"
    then have "strtoll s base = \<lparr>sr_value = 0, sr_endptr = s, sr_erange = False\<rparr>"
      by (rule strtoll_no_conversion)
    then have "sr_endptr (strtoll s base) = s"
      by simp
    with ne show False by simp
  qed
qed

lemma converts_space: "isspace c \<Longrightarrow> converts (c # s) base = converts s base"
  by (simp add: converts_def)

lemma strtoll_space:
  assumes "isspace c" "converts s base"
  shows "strtoll (c # s) base = strtoll s base"
  using assms by (simp add: strtoll_def converts_def Let_def split_beta)

lemma not_converts_comma: "\<not> converts (CHR '','' # s) base"
  by (simp add: converts_def isspace_def skip_sign_def skip_0x_def is_digit_def digit_of_def
      split: list.split)

lemma not_converts_Nil: "\<not> converts [] base"
  by (simp add: converts_def skip_sign_def skip_0x_def)

text \<open>
  The decimal rendering of a number is a token, and its value is the number: the tokens
  of an index list written in decimal are the indices themselves.
\<close>

lemma digit_of_char_of: "(d::nat) < 10 \<Longrightarrow> digit_of (char_of (48 + d)) = Some d"
  by (simp add: digit_of_def Let_def)

lemma is_digit_char_of: "(d::nat) < 10 \<Longrightarrow> is_digit 10 (char_of (48 + d))"
  by (simp add: is_digit_def digit_of_char_of)

lemma digits_value_snoc:
  "digits_value base (ds @ [c]) = digits_value base ds * base + the (digit_of c)"
  by (simp add: digits_value_def)

lemma dec_nat_token:
  "dec_nat n \<noteq> [] \<and> list_all (is_digit 10) (dec_nat n) \<and> digits_value 10 (dec_nat n) = n"
proof (induction n rule: dec_nat.induct)
  case (1 n)
  show ?case
  proof (cases "n < 10")
    case True
    then show ?thesis
      by (simp add: dec_nat.simps [of n] is_digit_char_of digits_value_def digit_of_char_of)
  next
    case False
    have d: "n mod 10 < 10"
      by simp
    from "1.IH" [OF False] False show ?thesis
      by (simp add: dec_nat.simps [of n] is_digit_char_of [OF d] digits_value_snoc
          digit_of_char_of [OF d])
  qed
qed

lemma is_token_dec_nat: "n \<le> limit \<Longrightarrow> is_token 10 limit (dec_nat n)"
  by (simp add: is_token_def dec_nat_token)

section \<open>Properties of the loops over a literal\<close>








lemma trap_bits_Nil: "trap_bits w a v [] p str = Inr (p, str)"
  by (simp add: trap_bits.simps bits_pass_def strtoll_no_conversion [OF not_converts_Nil])

lemma bits_pass_blank:
  assumes "is_blank c"
  shows "bits_pass w a v (c # s) p str =
         (if converts s 10 then bits_pass w a v s p str else Again s (p, str))"
proof (cases "converts s 10")
  case True
  have sp: "isspace c" using assms by (rule is_blank_space)
  have eq: "strtoll (c # s) 10 = strtoll s 10"
    by (rule strtoll_space [OF sp True])
  have "length (sr_endptr (strtoll s 10)) < length s"
    by (rule strtoll_conversion_shorter [OF True])
  then have ne: "sr_endptr (strtoll s 10) \<noteq> s" "sr_endptr (strtoll s 10) \<noteq> c # s"
    by auto
  show ?thesis
    using True ne by (simp add: bits_pass_def eq Let_def)
next
  case False
  have sp: "isspace c" using assms by (rule is_blank_space)
  from False sp have "\<not> converts (c # s) 10"
    by (simp add: converts_space)
  then have "strtoll (c # s) 10 = \<lparr>sr_value = 0, sr_endptr = c # s, sr_erange = False\<rparr>"
    by (rule strtoll_no_conversion)
  with False assms show ?thesis
    by (auto simp: bits_pass_def is_blank_def)
qed

lemma bits_pass_comma: "bits_pass w a v (CHR '','' # s) p str = Again s (p, str)"
  by (simp add: bits_pass_def strtoll_no_conversion [OF not_converts_comma])

lemma trap_bits_sep:
  assumes "is_sep c"
  shows "trap_bits w a v (c # s) p str = trap_bits w a v s p str"
proof (cases "is_blank c")
  case True
  show ?thesis
  proof (cases "converts s 10")
    case c: True
    then show ?thesis
      by (simp add: trap_bits.simps [of w a v "c # s"] trap_bits.simps [of w a v s]
          bits_pass_blank [OF True])
  next
    case False
    then show ?thesis
      by (simp add: trap_bits.simps [of w a v "c # s"] bits_pass_blank [OF True])
  qed
next
  case False
  with assms have "c = CHR '',''"
    by (simp add: is_sep_def)
  then show ?thesis
    by (simp add: trap_bits.simps [of w a v "CHR '','' # s"] bits_pass_comma)
qed

lemma trap_bits_run:
  "list_all is_sep run \<Longrightarrow> trap_bits w a v (run @ s) p str = trap_bits w a v s p str"
  by (induction run) (simp_all add: trap_bits_sep)

lemma strtoll_bit_token:
  assumes "is_token 10 (nat LLONG_MAX) tok" "rest = [] \<or> is_sep (hd rest)"
  shows "strtoll (tok @ rest) 10 =
        \<lparr>sr_value = int (digits_value 10 tok), sr_endptr = rest, sr_erange = False\<rparr>"
    and "rest \<noteq> tok @ rest"
proof -
  let ?n = "digits_value 10 tok"
  from assms(1) have tok: "tok \<noteq> []" "list_all (is_digit 10) tok" "?n \<le> nat LLONG_MAX"
    by (simp_all add: is_token_def)
  have le: "int ?n \<le> LLONG_MAX"
    using tok(3) by (simp add: LLONG_MAX_def)
  show "strtoll (tok @ rest) 10 =
        \<lparr>sr_value = int ?n, sr_endptr = rest, sr_erange = False\<rparr>"
    using strtoll_token [OF tok(1,2) assms(2)] le by (simp add: min_def)
  show "rest \<noteq> tok @ rest"
    using tok(1) by simp
qed

text \<open>
  A token read through a pointer that is not freed sets its bit and leaves the pointer
  live; the first token read while the pointer is freed ends the run.
\<close>

lemma bits_pass_token:
  assumes "is_token 10 (nat LLONG_MAX) tok" "rest = [] \<or> is_sep (hd rest)"
    "alloc_ok w (digits_value 10 tok div 8 + 1)" "p \<noteq> Freed" "str = [] \<or> p = Live"
  shows "bits_pass w a v (tok @ rest) p str =
         (if rest = [] then Done (Live, set_bit_be (digits_value 10 tok) str)
          else Again (tl rest) (Live, set_bit_be (digits_value 10 tok) str))"
proof -
  let ?n = "digits_value 10 tok"
  note st = strtoll_bit_token [OF assms(1,2)]
  have dv: "nat (int ?n div 8) = ?n div 8" "nat (int ?n mod 8) = ?n mod 8"
    by (simp_all add: nat_div_distrib nat_mod_distrib)
  show ?thesis
    using assms(2,3,4,5) st(2)
    by (auto simp: bits_pass_def st(1) Let_def is_sep_def is_blank_def dv set_bit_be_def)
qed

lemma bits_pass_token_freed:
  assumes "is_token 10 (nat LLONG_MAX) tok" "rest = [] \<or> is_sep (hd rest)"
  shows "bits_pass w a v (tok @ rest) Freed [] = Leave Use_after_free"
proof -
  note st = strtoll_bit_token [OF assms]
  show ?thesis
    using assms(2) st(2)
    by (auto simp: bits_pass_def st(1) Let_def is_sep_def is_blank_def)
qed

lemma trap_bits_token:
  assumes "is_token 10 (nat LLONG_MAX) tok" "rest = [] \<or> is_sep (hd rest)"
    "alloc_ok w (digits_value 10 tok div 8 + 1)" "p \<noteq> Freed" "str = [] \<or> p = Live"
  shows "trap_bits w a v (tok @ rest) p str =
         (if rest = [] then Inr (Live, set_bit_be (digits_value 10 tok) str)
          else trap_bits w a v (tl rest) Live (set_bit_be (digits_value 10 tok) str))"
  by (simp add: trap_bits.simps [of w a v "tok @ rest"] bits_pass_token [OF assms])

lemma trap_bits_token_freed:
  assumes "is_token 10 (nat LLONG_MAX) tok" "rest = [] \<or> is_sep (hd rest)"
  shows "trap_bits w a v (tok @ rest) Freed [] = Inl Use_after_free"
  by (simp add: trap_bits.simps [of w a v "tok @ rest"] bits_pass_token_freed [OF assms])

lemma layout_head:
  assumes "well_separated sep ((tok, run) # trs)" "\<And>c. sep c \<Longrightarrow> is_sep c"
  shows "run @ layout trs = [] \<or> is_sep (hd (run @ layout trs))"
proof -
  from assms(1) have run: "list_all sep run" and cases: "run \<noteq> [] \<or> trs = []"
    by (cases trs; simp)+
  from run assms(2) have "list_all is_sep run"
    by (induction run) auto
  with cases show ?thesis
    by (cases run) auto
qed

lemma trap_bits_layout:
  assumes "list_all (\<lambda>tr. is_token 10 (nat LLONG_MAX) (fst tr)) trs"
    "well_separated is_sep trs" "list_all is_sep lead"
    "list_all (\<lambda>tr. alloc_ok w (digits_value 10 (fst tr) div 8 + 1)) trs"
    "p \<noteq> Freed" "str = [] \<or> p = Live"
  shows "trap_bits w a v (lead @ layout trs) p str =
         Inr (if trs = [] then p else Live,
              foldl (\<lambda>s tr. set_bit_be (digits_value 10 (fst tr)) s) str trs)"
  using assms
proof (induction trs arbitrary: lead str p)
  case Nil
  then show ?case
    using trap_bits_run [of lead w a v "[]" p str] by (simp add: trap_bits_Nil)
next
  case (Cons tr trs)
  obtain tok run where tr: "tr = (tok, run)"
    by (cases tr)
  let ?rest = "run @ layout trs"
  let ?s = "set_bit_be (digits_value 10 tok) str"
  from Cons.prems(1) tr have tok: "is_token 10 (nat LLONG_MAX) tok"
    by simp
  from Cons.prems(4) tr have al: "alloc_ok w (digits_value 10 tok div 8 + 1)"
    by simp
  from Cons.prems(2) tr have run: "list_all is_sep run" and cases: "run \<noteq> [] \<or> trs = []"
    by (cases trs; simp)+
  from run cases have hd: "?rest = [] \<or> is_sep (hd ?rest)"
    by (cases run) auto
  have skip: "trap_bits w a v (lead @ layout (tr # trs)) p str
        = trap_bits w a v (tok @ ?rest) p str"
    using trap_bits_run [OF Cons.prems(3)] tr by simp
  show ?case
  proof (cases "?rest = []")
    case True
    with cases have e: "trs = []" "run = []" by auto
    have "trap_bits w a v (tok @ []) p str = Inr (Live, ?s)"
      using trap_bits_token [OF tok _ al Cons.prems(5,6), of "[]" a v] by simp
    with e skip tr show ?thesis
      by simp
  next
    case False
    with cases have ne: "run \<noteq> []"
      by auto
    then have tl: "tl ?rest = tl run @ layout trs"
      by simp
    from run ne have trun: "list_all is_sep (tl run)"
      by (cases run) auto
    from Cons.prems(1) have toks: "list_all (\<lambda>tr. is_token 10 (nat LLONG_MAX) (fst tr)) trs"
      by simp
    from Cons.prems(4) have als: "list_all (\<lambda>tr. alloc_ok w (digits_value 10 (fst tr) div 8 + 1)) trs"
      by simp
    from Cons.prems(2) tr ne have ws: "well_separated is_sep trs"
      by (cases trs) auto
    have live: "Live \<noteq> Freed" "?s = [] \<or> Live = Live"
      by simp_all
    have "trap_bits w a v (tok @ ?rest) p str =
          (if ?rest = [] then Inr (Live, ?s) else trap_bits w a v (tl ?rest) Live ?s)"
      by (rule trap_bits_token [OF tok hd al Cons.prems(5,6)])
    also have "\<dots> = trap_bits w a v (tl ?rest) Live ?s"
      using False by (simp only: if_False)
    also have "\<dots> = Inr (if trs = [] then Live else Live,
                       foldl (\<lambda>s tr. set_bit_be (digits_value 10 (fst tr)) s) ?s trs)"
      unfolding tl by (rule Cons.IH [OF toks ws trun als live])
    finally show ?thesis
      using skip tr by simp
  qed
qed

lemma trap_bits_layout_freed:
  assumes "trs \<noteq> []" "list_all (\<lambda>tr. is_token 10 (nat LLONG_MAX) (fst tr)) trs"
    "well_separated is_sep trs" "list_all is_sep lead"
  shows "trap_bits w a v (lead @ layout trs) Freed [] = Inl Use_after_free"
proof -
  from assms(1) obtain tok run trs' where trs: "trs = (tok, run) # trs'"
    by (cases trs) auto
  from assms(2) trs have tok: "is_token 10 (nat LLONG_MAX) tok"
    by simp
  from assms(3) trs have hd: "run @ layout trs' = [] \<or> is_sep (hd (run @ layout trs'))"
    by (intro layout_head [of is_sep tok run trs']) simp_all
  have "trap_bits w a v (lead @ layout trs) Freed [] = trap_bits w a v (layout trs) Freed []"
    by (rule trap_bits_run [OF assms(4)])
  also have "\<dots> = trap_bits w a v (tok @ (run @ layout trs')) Freed []"
    by (simp add: trs)
  also have "\<dots> = Inl Use_after_free"
    by (rule trap_bits_token_freed [OF tok hd])
  finally show ?thesis .
qed

text \<open>
  The bits are written through a live pointer: \<open>strl\<close> is above 0 only after
  \<open>recallocarray\<close> has returned a buffer.
\<close>

lemma bits_pass_live:
  assumes "str = [] \<or> p = Live"
  shows "bits_pass w a v tmpstr p str = Done s \<Longrightarrow> snd s = [] \<or> fst s = Live"
    and "bits_pass w a v tmpstr p str = Again t s \<Longrightarrow> snd s = [] \<or> fst s = Live"
  using assms by (auto simp: bits_pass_def Let_def split: if_splits)





lemma is_blank_not_digit: "is_blank c \<Longrightarrow> \<not> is_digit base c"
  by (auto simp: is_blank_def is_digit_def digit_of_def)










lemma byte_token_digits:
  assumes "is_token base 255 tok" "base \<le> 16"
  shows "byte_token base tok = Some (digits_value base tok)" and "is_word tok"
proof -
  from assms(1) have tok: "tok \<noteq> []" "list_all (is_digit base) tok" "digits_value base tok \<le> 255"
    by (simp_all add: is_token_def)
  then obtain d ds where t: "tok = d # ds" and d: "is_digit base d"
    by (cases tok) auto
  have s: "skip_sign tok = (False, tok)"
    unfolding t using d by (rule skip_sign_digit)
  have x: "skip_0x base tok = tok"
    using skip_0x_token [OF tok(2) _ assms(2) tok(1), of "[]"] by simp
  show "byte_token base tok = Some (digits_value base tok)"
    using tok by (simp add: byte_token_def s x)
  have "\<not> is_blank c" if "c \<in> set tok" for c
    using that tok(2) is_blank_not_digit [of c base] by (auto simp: list_all_iff)
  then show "is_word tok"
    using tok(1) d t by (auto simp: is_word_def list_all_iff dest: is_digit_not_space)
qed

lemma octets_pass_progress:
  "octets_pass base a v tmpstr str = Done s \<Longrightarrow>
     s = str \<or> (length s = length str + 1 \<and> tmpstr \<noteq> [])"
  "octets_pass base a v tmpstr str = Again t s \<Longrightarrow>
     (s = str \<and> length t < length tmpstr) \<or>
     (length s = length str + 1 \<and> length t + 2 \<le> length tmpstr)"
proof -
  let ?e = "sr_endptr (strtoll tmpstr base)"
  have le: "length ?e \<le> length tmpstr"
    by (rule strtoll_endptr_length)
  have lt: "?e \<noteq> tmpstr \<Longrightarrow> length ?e < length tmpstr"
    using converts_iff [of tmpstr base] strtoll_conversion_shorter [of tmpstr base] by simp
  show "octets_pass base a v tmpstr str = Done s \<Longrightarrow>
     s = str \<or> (length s = length str + 1 \<and> tmpstr \<noteq> [])"
    using lt by (auto simp: octets_pass_def Let_def split: if_splits)
  assume ag: "octets_pass base a v tmpstr str = Again t s"
  have sh: "length t < length tmpstr"
    by (rule octets_pass_shorter [OF ag])
  from ag have "(s = str) \<or> (length s = length str + 1 \<and> ?e \<noteq> tmpstr \<and> ?e \<noteq> [] \<and> t = tl ?e)"
    by (auto simp: octets_pass_def Let_def split: if_splits)
  then show "(s = str \<and> length t < length tmpstr) \<or>
     (length s = length str + 1 \<and> length t + 2 \<le> length tmpstr)"
  proof
    assume "s = str"
    with sh show ?thesis by simp
  next
    assume c: "length s = length str + 1 \<and> ?e \<noteq> tmpstr \<and> ?e \<noteq> [] \<and> t = tl ?e"
    then have "length ?e < length tmpstr" "length t + 1 = length ?e"
      using lt by (simp_all add: length_Suc_conv_rev) 
    with c show ?thesis by simp
  qed
qed

lemma trap_octets_bound:
  "trap_octets base a v tmpstr str = Inr s \<Longrightarrow>
   length s \<le> length str + (length tmpstr + 1) div 2"
proof (induction base a v tmpstr str rule: trap_octets.induct)
  case (1 base a v tmpstr str)
  show ?case
  proof (cases "octets_pass base a v tmpstr str")
    case (Leave e)
    with "1.prems" show ?thesis
      by (simp add: trap_octets.simps [of base a v tmpstr])
  next
    case (Done s')
    with "1.prems" have "s' = s"
      by (simp add: trap_octets.simps [of base a v tmpstr])
    with octets_pass_progress(1) [OF Done] show ?thesis
      by (cases tmpstr) auto
  next
    case (Again t s')
    with "1.prems" have "trap_octets base a v t s' = Inr s"
      by (simp add: trap_octets.simps [of base a v tmpstr])
    from "1.IH" [OF Again this] have ih: "length s \<le> length s' + (length t + 1) div 2" .
    from octets_pass_progress(2) [OF Again] show ?thesis
    proof
      assume "s' = str \<and> length t < length tmpstr"
      with ih show ?thesis by auto
    next
      assume "length s' = length str + 1 \<and> length t + 2 \<le> length tmpstr"
      with ih show ?thesis by auto
    qed
  qed
qed

text \<open>
  "String always shrinks": the bytes that \<open>case 'd'\<close> and \<open>case 'x'\<close> store fit the buffer
  of \<open>strlen(argv[i + 2])\<close> bytes.
\<close>

lemma string_always_shrinks:
  assumes "trap_octets base a v v [] = Inr s"
  shows "length s \<le> length v"
proof -
  from trap_octets_bound [OF assms] have "length s \<le> (length v + 1) div 2"
    by simp
  then show ?thesis
    by (cases v) auto
qed

section \<open>Properties of the bit string\<close>

lemma bit_mask: "k < 8 \<Longrightarrow> m < 8 \<Longrightarrow> bit (drop_bit k (0x80 :: byte)) m \<longleftrightarrow> m = 7 - k"
proof -
  assume k: "k < 8" and m: "m < 8"
  have "bit (2 ^ 7 :: byte) (k + m) \<longleftrightarrow> k + m = 7"
    by (simp only: bit_exp_iff) auto
  moreover have "(2 ^ 7 :: byte) = 0x80"
    by simp
  ultimately have "bit (0x80 :: byte) (k + m) \<longleftrightarrow> k + m = 7"
    by simp
  then show ?thesis
    using k m by (auto simp: bit_drop_bit_eq)
qed

lemma length_set_bit_be: "length (set_bit_be i str) = max (length str) (i div 8 + 1)"
  by (simp add: set_bit_be_def Let_def)

lemma bit_at_zero: "\<not> bit_at (replicate n 0) j"
  by (simp add: bit_at_def)

lemma bit_at_set_bit_be: "bit_at (set_bit_be i str) j \<longleftrightarrow> bit_at str j \<or> j = i"
proof -
  let ?str1 = "if i div 8 \<ge> length str then str @ replicate (i div 8 + 1 - length str) 0 else str"
  have len: "i div 8 < length ?str1"
    by simp
  have old: "bit_at ?str1 j \<longleftrightarrow> bit_at str j"
    by (auto simp: bit_at_def nth_append)
  have km: "i mod 8 < 8" "7 - j mod 8 < 8"
    by simp_all
  show ?thesis
  proof (cases "j div 8 = i div 8")
    case True
    have "bit_at (set_bit_be i str) j \<longleftrightarrow>
          bit (?str1 ! (i div 8) OR drop_bit (i mod 8) 0x80) (7 - j mod 8)"
      using True len by (simp add: set_bit_be_def Let_def bit_at_def)
    also have "\<dots> \<longleftrightarrow> bit (?str1 ! (i div 8)) (7 - j mod 8) \<or> 7 - j mod 8 = 7 - i mod 8"
      by (simp only: bit_or_iff bit_mask [OF km])
    also have "\<dots> \<longleftrightarrow> bit_at ?str1 j \<or> j mod 8 = i mod 8"
      using True len by (auto simp: bit_at_def) 
    also have "\<dots> \<longleftrightarrow> bit_at str j \<or> j = i"
      using True old by (metis div_mult_mod_eq)
    finally show ?thesis .
  next
    case False
    then have "bit_at (set_bit_be i str) j \<longleftrightarrow> bit_at ?str1 j"
      by (auto simp: set_bit_be_def Let_def bit_at_def)
    with False old show ?thesis
      by auto
  qed
qed

lemma max_div_nat: "max (a::nat) b div c = max (a div c) (b div c)"
proof (cases "a \<le> b")
  case True
  then have "a div c \<le> b div c"
    by (rule div_le_mono)
  with True show ?thesis
    by (simp add: max_def)
next
  case False
  then have "b \<le> a"
    by simp
  then have "b div c \<le> a div c"
    by (rule div_le_mono)
  with False show ?thesis
    by (simp add: max_def)
qed

lemma length_foldl_set_bit_be:
  "length (foldl (\<lambda>s i. set_bit_be i s) str is)
   = max (length str) (if is = [] then 0 else Max (set is) div 8 + 1)"
proof (induction "is" arbitrary: str)
  case Nil
  then show ?case by simp
next
  case (Cons i "is")
  show ?case
  proof (cases "is = []")
    case True
    then show ?thesis by (simp add: length_set_bit_be)
  next
    case False
    have M: "Max (set (i # is)) = max i (Max (set is))"
      using False by simp
    have D: "max i (Max (set is)) div 8 = max (i div 8) (Max (set is) div 8)"
      by (rule max_div_nat)
    have "length (foldl (\<lambda>s i. set_bit_be i s) str (i # is))
          = max (max (length str) (i div 8 + 1)) (Max (set is) div 8 + 1)"
      using False by (simp add: Cons.IH length_set_bit_be)
    also have "\<dots> = max (length str) (max (i div 8) (Max (set is) div 8) + 1)"
      by (simp add: max_def)
    also have "\<dots> = max (length str) (Max (set (i # is)) div 8 + 1)"
      by (simp only: M D)
    finally show ?thesis
      by simp
  qed
qed

lemma bit_at_foldl_set_bit_be:
  "bit_at (foldl (\<lambda>s i. set_bit_be i s) str is) j \<longleftrightarrow> bit_at str j \<or> j \<in> set is"
  by (induction "is" arbitrary: str) (auto simp: bit_at_set_bit_be)

lemma skip_0x_decimal: "skip_0x 10 s = s"
  by (simp add: skip_0x_def split: list.split)

lemma scan_digits_rest_Nil:
  "snd (scan_digits base s acc) = [] \<Longrightarrow> list_all (is_digit base) s"
  by (induction s arbitrary: acc) (auto split: if_splits)

lemma skip_sign_cases:
  "skip_sign (c # cs) =
     (c = CHR ''-'', if c = CHR ''-'' \<or> c = CHR ''+'' then cs else c # cs)"
  by (simp add: skip_sign_def)

lemma strtoll_signed_decimal_Some:
  assumes "signed_decimal s = Some n"
  shows "strtoll s 10 =
         \<lparr>sr_value = max LLONG_MIN (min LLONG_MAX n), sr_endptr = [],
          sr_erange = (n < LLONG_MIN \<or> LLONG_MAX < n)\<rparr>"
proof -
  from assms obtain c cs where d: "dropWhile isspace s = c # cs"
    by (auto simp: signed_decimal_def split: list.splits)
  let ?ds = "if c = CHR ''-'' \<or> c = CHR ''+'' then cs else c # cs"
  from assms d have ds: "?ds \<noteq> []" "list_all (is_digit 10) ?ds"
    and n: "n = (if c = CHR ''-'' then - int (digits_value 10 ?ds) else int (digits_value 10 ?ds))"
    by (auto simp: signed_decimal_def Let_def split: if_splits)
  from ds have hd: "is_digit 10 (hd ?ds)"
    by (cases ?ds) auto
  have sc: "scan_digits 10 (?ds @ []) 0 = (digits_value 10 ?ds, [])"
    unfolding digits_value_def by (rule scan_digits_token [OF ds(2)]) simp
  then have sc': "scan_digits 10 ?ds 0 = (digits_value 10 ?ds, [])"
    by simp
  show ?thesis
    using ds(1) hd n
    by (simp add: strtoll_def d skip_sign_cases skip_0x_decimal sc' Let_def del: scan_digits.simps)
qed

lemma signed_decimal_None_cases:
  assumes "signed_decimal s = None" "dropWhile isspace s = c # cs"
  shows "(if c = CHR ''-'' \<or> c = CHR ''+'' then cs else c # cs) = [] \<or>
         \<not> list_all (is_digit 10) (if c = CHR ''-'' \<or> c = CHR ''+'' then cs else c # cs)"
proof (rule ccontr)
  assume "\<not> ?thesis"
  then have "signed_decimal s \<noteq> None"
    by (simp add: signed_decimal_def assms(2) Let_def)
  with assms(1) show False
    by simp
qed

lemma strtoll_converts_endptr:
  assumes "converts s 10"
  shows "sr_endptr (strtoll s 10) = snd (scan_digits 10 (snd (skip_sign (dropWhile isspace s))) 0)"
proof -
  from assms have c: "snd (skip_sign (dropWhile isspace s)) \<noteq> []"
    "is_digit 10 (hd (snd (skip_sign (dropWhile isspace s))))"
    by (simp_all add: converts_def skip_0x_decimal Let_def)
  then show ?thesis
    by (simp add: strtoll_def skip_0x_decimal Let_def split_beta)
qed

lemma strtoll_signed_decimal_None:
  assumes "signed_decimal s = None"
  shows "sr_endptr (strtoll s 10) = s \<or> sr_endptr (strtoll s 10) \<noteq> []"
proof (cases "converts s 10")
  case False
  then show ?thesis
    by (simp add: strtoll_no_conversion)
next
  case True
  let ?s2 = "snd (skip_sign (dropWhile isspace s))"
  from True have c: "?s2 \<noteq> []"
    by (simp add: converts_def skip_0x_decimal Let_def)
  then obtain c cs where d: "dropWhile isspace s = c # cs"
    by (cases "dropWhile isspace s") (simp_all add: skip_sign_def)
  let ?ds = "if c = CHR ''-'' \<or> c = CHR ''+'' then cs else c # cs"
  have s2: "?s2 = ?ds"
    by (simp only: d skip_sign_cases snd_conv)
  from signed_decimal_None_cases [OF assms d] c have "\<not> list_all (is_digit 10) ?ds"
    unfolding s2 by blast
  then have "snd (scan_digits 10 ?ds 0) \<noteq> []"
    using scan_digits_rest_Nil by blast
  then have "sr_endptr (strtoll s 10) \<noteq> []"
    unfolding strtoll_converts_endptr [OF True] s2 .
  then show ?thesis ..
qed

lemma signed_decimal_nonempty: "signed_decimal s = Some n \<Longrightarrow> s \<noteq> []"
  by (auto simp: signed_decimal_def)

lemma strtonum_converted:
  assumes st: "strtoll s 10 = \<lparr>sr_value = v, sr_endptr = [], sr_erange = e\<rparr>"
    and "minval \<le> maxval" "s \<noteq> []"
  shows "strtonum s minval maxval =
        (if (v = LLONG_MIN \<and> e) \<or> v < minval then Inl TOOSMALL
         else if (v = LLONG_MAX \<and> e) \<or> v > maxval then Inl TOOLARGE
         else Inr v)"
  using assms(2,3) by (simp add: strtonum_def st Let_def)

lemma clamp_cases:
  fixes n lo hi minval maxval :: int
  assumes "lo < hi" "lo \<le> minval" "minval \<le> maxval" "maxval \<le> hi"
  shows "(if (max lo (min hi n) = lo \<and> (n < lo \<or> hi < n)) \<or> max lo (min hi n) < minval
          then a
          else if (max lo (min hi n) = hi \<and> (n < lo \<or> hi < n)) \<or> max lo (min hi n) > maxval
          then b
          else c (max lo (min hi n)))
         = (if n < minval then a else if n > maxval then b else c n)"
proof -
  consider "n < lo" | "hi < n" | "lo \<le> n" "n \<le> hi"
    by linarith
  then show ?thesis
  proof cases
    case 1
    with assms have "max lo (min hi n) = lo" "n < minval"
      by (simp_all add: max_def min_def)
    with 1 show ?thesis by simp
  next
    case 2
    with assms have "max lo (min hi n) = hi" "\<not> n < minval" "n > maxval" "\<not> hi < minval" "hi \<noteq> lo"
      by (simp_all add: max_def min_def)
    with 2 show ?thesis by simp
  next
    case 3
    then have "max lo (min hi n) = n"
      by (simp add: max_def min_def)
    with 3 assms show ?thesis by auto
  qed
qed

lemma strtonum_signed_decimal:
  assumes "LLONG_MIN \<le> minval" "minval \<le> maxval" "maxval \<le> LLONG_MAX"
  shows "strtonum s minval maxval =
         (case signed_decimal s of
            None \<Rightarrow> Inl INVALID
          | Some n \<Rightarrow>
              if n < minval then Inl TOOSMALL
              else if n > maxval then Inl TOOLARGE
              else Inr n)"
proof (cases "signed_decimal s")
  case None
  from strtoll_signed_decimal_None [OF None]
  have "strtonum s minval maxval = Inl INVALID"
    using assms(2) by (simp add: strtonum_def Let_def)
  with None show ?thesis
    by simp
next
  case (Some n)
  have lm: "LLONG_MIN < LLONG_MAX"
    by (simp add: LLONG_MIN_def LLONG_MAX_def)
  have "strtonum s minval maxval =
        (if (max LLONG_MIN (min LLONG_MAX n) = LLONG_MIN \<and> (n < LLONG_MIN \<or> LLONG_MAX < n))
            \<or> max LLONG_MIN (min LLONG_MAX n) < minval then Inl TOOSMALL
         else if (max LLONG_MIN (min LLONG_MAX n) = LLONG_MAX \<and> (n < LLONG_MIN \<or> LLONG_MAX < n))
            \<or> max LLONG_MIN (min LLONG_MAX n) > maxval then Inl TOOLARGE
         else Inr (max LLONG_MIN (min LLONG_MAX n)))"
    by (rule strtonum_converted [OF strtoll_signed_decimal_Some [OF Some] assms(2)
          signed_decimal_nonempty [OF Some]])
  also have "\<dots> = (if n < minval then Inl TOOSMALL else if n > maxval then Inl TOOLARGE else Inr n)"
    by (rule clamp_cases [OF lm assms])
  finally show ?thesis
    using Some by simp
qed

section \<open>The claims about the trap command\<close>

text \<open>
  C9, as the code has it. With SNMPv1 selected the trap command leaves before it connects to
  the agent or builds anything, whatever the arguments are: with the usage message when
  there are fewer than three arguments or their number is not a multiple of three, and
  with "trap is not supported for snmp v1" otherwise.
\<close>

theorem trap_v1_refused:
  "version g = SNMP_V1 \<Longrightarrow>
   snmpc_trap g w argv =
     ([], Exit (if length argv < 3 \<or> length argv mod 3 \<noteq> 0 then Usage
                else Errx ''trap is not supported for snmp v1''))"
  by (simp add: snmpc_trap_def)

theorem trap_v1_refused_witness:
  "version ((default_globals ''trap'')\<lparr>version := SNMP_V1\<rparr>) = SNMP_V1 \<and>
   snmpc_trap ((default_globals ''trap'')\<lparr>version := SNMP_V1\<rparr>) example_world
     [''localhost'', '''', ''coldStart''] =
     ([], Exit (Errx ''trap is not supported for snmp v1''))"
  using trap_v1_refused [of "(default_globals ''trap'')\<lparr>version := SNMP_V1\<rparr>" example_world
      "[''localhost'', '''', ''coldStart'']"]
  by (simp add: default_globals_def)

text \<open>
  C9 as stated fails: with SNMPv1 selected and two arguments the command leaves through
  \<open>usage()\<close>, not with the message about SNMPv1.
\<close>

theorem trap_v1_usage_counterexample:
  "version ((default_globals ''trap'')\<lparr>version := SNMP_V1\<rparr>) = SNMP_V1 \<and>
   snmpc_trap ((default_globals ''trap'')\<lparr>version := SNMP_V1\<rparr>) example_world
     [''localhost'', ''''] = ([], Exit Usage)"
  by (simp add: snmpc_trap_def default_globals_def)

lemmas eval_trap =
  skip_sign_def skip_0x_def strtoll_def strtonum_def isspace_def is_digit_def digit_of_def
  LLONG_MAX_def LLONG_MIN_def INT32_MAX_def INT32_MIN_def bits_pass_def octets_pass_def
  trap_bits.simps trap_octets.simps trap_value_def bad_value_def Let_def

lemmas eval_trap_command =
  snmpc_trap_def trap_uptime_def trap_varbind_def pastestring_def free_def eval_trap
  example_world_def default_globals_def

text \<open>
  A literal of the tag \<open>b\<close> without any token (the empty string, or separators only)
  leaves \<open>str\<close> as it was and gives the octet string of length zero. The element is
  built from it, and \<open>free(str)\<close> follows: in the first triple that has a string, where
  \<open>str\<close> is still \<open>NULL\<close>, the binding is accepted; after a triple that has freed
  \<open>str\<close>, the pointer is freed a second time.
\<close>

lemma trap_bits_no_tokens:
  assumes "list_all is_sep v"
  shows "trap_value w p a (CHR ''b'' # t) v = Inr (OctetString [], p)"
    and "smi_string2oid w a = Some oid \<Longrightarrow> ber_printf_elements w oid (OctetString []) \<Longrightarrow>
         trap_varbind w NULL a (CHR ''b'' # t) v = Inr ((oid, OctetString []), NULL)"
    and "smi_string2oid w a = Some oid \<Longrightarrow> ber_printf_elements w oid (OctetString []) \<Longrightarrow>
         trap_varbind w Freed a (CHR ''b'' # t) v = Inl Use_after_free"
proof -
  have "trap_bits w a v (v @ []) p [] = trap_bits w a v [] p []" for p
    using assms by (rule trap_bits_run)
  then have "trap_bits w a v v p [] = Inr (p, [])" for p
    by (simp add: trap_bits_Nil)
  then show v: "trap_value w p a (CHR ''b'' # t) v = Inr (OctetString [], p)" for p
    by (simp add: trap_value_def)
  show "smi_string2oid w a = Some oid \<Longrightarrow> ber_printf_elements w oid (OctetString []) \<Longrightarrow>
         trap_varbind w NULL a (CHR ''b'' # t) v = Inr ((oid, OctetString []), NULL)"
    by (simp add: trap_varbind_def v pastestring_def free_def)
  show "smi_string2oid w a = Some oid \<Longrightarrow> ber_printf_elements w oid (OctetString []) \<Longrightarrow>
         trap_varbind w Freed a (CHR ''b'' # t) v = Inl Use_after_free"
    by (simp add: trap_varbind_def v pastestring_def free_def)
qed

text \<open>
  C10 holds for the first triple that has a string and fails after it. The command
  \<open>snmp trap localhost '' coldStart sysDescr.0 b ' ,  '\<close> sends the notification with an
  octet string of length zero. With the triple \<open>sysObjectID.0 s up\<close> in front of it, the
  pointer that \<open>case 's'\<close> has freed is freed again after the element of the \<open>b\<close> triple
  has been built, and nothing is sent.
\<close>

theorem trap_bits_no_tokens_freed:
  "snmpc_trap (default_globals ''trap'') example_world
     [''localhost'', '''', ''coldStart'', ''sysDescr.0'', ''b'', '' ,  ''] =
     ([Connected ''localhost'' ''162'',
       Sent (Trap (0, 0) [1, 3, 6, 1, 6, 3, 1, 1, 5, 1]
         [([1, 3, 6, 1, 2, 1, 1, 1, 0], OctetString [])])], Return 0) \<and>
   trap_varbind example_world NULL ''sysObjectID.0'' ''s'' ''up''
     = Inr (([1, 3, 6, 1, 2, 1, 1, 2, 0], OctetString [0x75, 0x70]), Freed) \<and>
   trap_varbind example_world Freed ''sysDescr.0'' ''b'' '' ,  '' = Inl Use_after_free \<and>
   snmpc_trap (default_globals ''trap'') example_world
     [''localhost'', '''', ''coldStart'', ''sysObjectID.0'', ''s'', ''up'',
      ''sysDescr.0'', ''b'', '' ,  ''] =
     ([Connected ''localhost'' ''162''], Exit Use_after_free)"
  by (simp add: eval_trap_command)

lemma foldl_set_bit_be_map:
  "foldl (\<lambda>s tr. set_bit_be (f tr) s) str trs = foldl (\<lambda>s i. set_bit_be i s) str (map f trs)"
  by (induction trs arbitrary: str) simp_all

text \<open>
  A literal of the tag \<open>b\<close> made of decimal tokens, each a bit index that fits
  \<open>long long\<close>, separated by runs of blanks and commas. Where \<open>str\<close> has not been freed
  and the allocator serves the buffer, its value is the octet string whose length is the
  highest index divided by 8, plus one, and in which exactly the bits named are set, bit
  \<open>i\<close> being counted from the most significant bit of byte \<open>i div 8\<close>. After a triple
  that has freed \<open>str\<close>, the first token hands the freed pointer to \<open>recallocarray\<close>.
\<close>

lemma trap_bits_encoding:
  assumes "trs \<noteq> []"
    and "list_all (\<lambda>tr. is_token 10 (nat LLONG_MAX) (fst tr)) trs"
    and "well_separated is_sep trs"
    and "list_all is_sep lead"
  shows "p \<noteq> Freed \<Longrightarrow>
         list_all (\<lambda>tr. alloc_ok w (digits_value 10 (fst tr) div 8 + 1)) trs \<Longrightarrow>
         \<exists>str. trap_value w p a (CHR ''b'' # t) (lead @ layout trs) = Inr (OctetString str, Live) \<and>
           length str = Max (set (map (\<lambda>tr. digits_value 10 (fst tr)) trs)) div 8 + 1 \<and>
           (\<forall>i. bit_at str i \<longleftrightarrow> i \<in> set (map (\<lambda>tr. digits_value 10 (fst tr)) trs))"
    and "trap_value w Freed a (CHR ''b'' # t) (lead @ layout trs) = Inl Use_after_free"
proof -
  let ?is = "map (\<lambda>tr. digits_value 10 (fst tr)) trs"
  let ?str = "foldl (\<lambda>s i. set_bit_be i s) [] ?is"
  have "trap_bits w a (lead @ layout trs) (lead @ layout trs) Freed [] = Inl Use_after_free"
    by (rule trap_bits_layout_freed [OF assms])
  then show "trap_value w Freed a (CHR ''b'' # t) (lead @ layout trs) = Inl Use_after_free"
    by (simp add: trap_value_def)
  assume p: "p \<noteq> Freed"
    and al: "list_all (\<lambda>tr. alloc_ok w (digits_value 10 (fst tr) div 8 + 1)) trs"
  have "trap_bits w a (lead @ layout trs) (lead @ layout trs) p []
        = Inr (if trs = [] then p else Live,
               foldl (\<lambda>s tr. set_bit_be (digits_value 10 (fst tr)) s) [] trs)"
    by (rule trap_bits_layout [OF assms(2,3,4) al p]) simp
  also have "foldl (\<lambda>s tr. set_bit_be (digits_value 10 (fst tr)) s) [] trs = ?str"
    by (rule foldl_set_bit_be_map)
  finally have 1: "trap_value w p a (CHR ''b'' # t) (lead @ layout trs) = Inr (OctetString ?str, Live)"
    using assms(1) by (simp add: trap_value_def)
  from assms(1) have 2: "length ?str = Max (set ?is) div 8 + 1"
    by (simp add: length_foldl_set_bit_be)
  have "\<And>i. \<not> bit_at [] i"
    by (simp add: bit_at_def)
  then have 3: "\<forall>i. bit_at ?str i \<longleftrightarrow> i \<in> set ?is"
    by (simp only: bit_at_foldl_set_bit_be) simp
  from 1 2 3 show "\<exists>str. trap_value w p a (CHR ''b'' # t) (lead @ layout trs) = Inr (OctetString str, Live) \<and>
           length str = Max (set (map (\<lambda>tr. digits_value 10 (fst tr)) trs)) div 8 + 1 \<and>
           (\<forall>i. bit_at str i \<longleftrightarrow> i \<in> set (map (\<lambda>tr. digits_value 10 (fst tr)) trs))"
    by (intro exI [of _ ?str] conjI)
qed

text \<open>
  C4 holds for the first triple that has a string and fails after it. The command
  \<open>snmp trap localhost '' coldStart sysDescr.0 b '0 7 15'\<close> sends the two bytes 0x81 and
  0x01. With the triple \<open>sysObjectID.0 s up\<close> in front of it, the first index of the \<open>b\<close>
  triple hands the pointer that \<open>case 's'\<close> has freed to \<open>recallocarray\<close>, and nothing is
  sent.
\<close>

theorem trap_bits_encoding_freed:
  "snmpc_trap (default_globals ''trap'') example_world
     [''localhost'', '''', ''coldStart'', ''sysDescr.0'', ''b'', ''0 7 15''] =
     ([Connected ''localhost'' ''162'',
       Sent (Trap (0, 0) [1, 3, 6, 1, 6, 3, 1, 1, 5, 1]
         [([1, 3, 6, 1, 2, 1, 1, 1, 0], OctetString [0x81, 0x01])])], Return 0) \<and>
   trap_varbind example_world NULL ''sysObjectID.0'' ''s'' ''up''
     = Inr (([1, 3, 6, 1, 2, 1, 1, 2, 0], OctetString [0x75, 0x70]), Freed) \<and>
   trap_value example_world Freed ''sysDescr.0'' ''b'' ''0 7 15'' = Inl Use_after_free \<and>
   snmpc_trap (default_globals ''trap'') example_world
     [''localhost'', '''', ''coldStart'', ''sysObjectID.0'', ''s'', ''up'',
      ''sysDescr.0'', ''b'', ''0 7 15''] =
     ([Connected ''localhost'' ''162''], Exit Use_after_free)"
  by (simp add: eval_trap_command)













lemma int32_in_llong: "LLONG_MIN \<le> INT32_MIN" "INT32_MIN \<le> INT32_MAX" "INT32_MAX \<le> LLONG_MAX"
  "LLONG_MIN \<le> LLONG_MIN" "LLONG_MIN \<le> LLONG_MAX" "LLONG_MAX \<le> LLONG_MAX"
  by (simp_all add: LLONG_MIN_def LLONG_MAX_def INT32_MIN_def INT32_MAX_def)

text \<open>
  C8. The tag \<open>c\<close> accepts a literal exactly when it is a signed decimal integer within
  the signed 32-bit range, and the value is the Counter32 of that number; the tags \<open>u\<close>
  and \<open>i\<close> accept it exactly when it is within the signed 64-bit range, and the value is
  the Integer of that number. Any other literal is refused with the bad-value-notation
  error. None of these tags touches the pointer \<open>str\<close>.
\<close>

theorem trap_integer_ranges:
  "trap_value w p a (CHR ''c'' # t) v =
     (case signed_decimal v of
        None \<Rightarrow> Inl (bad_value a v)
      | Some n \<Rightarrow>
          if INT32_MIN \<le> n \<and> n \<le> INT32_MAX then Inr (Counter32 n, p)
          else Inl (bad_value a v)) \<and>
   trap_value w p a (CHR ''u'' # t) v =
     (case signed_decimal v of
        None \<Rightarrow> Inl (bad_value a v)
      | Some n \<Rightarrow>
          if LLONG_MIN \<le> n \<and> n \<le> LLONG_MAX then Inr (Integer n, p)
          else Inl (bad_value a v)) \<and>
   trap_value w p a (CHR ''i'' # t) v = trap_value w p a (CHR ''u'' # t) v"
proof (intro conjI)
  show "trap_value w p a (CHR ''c'' # t) v =
     (case signed_decimal v of
        None \<Rightarrow> Inl (bad_value a v)
      | Some n \<Rightarrow>
          if INT32_MIN \<le> n \<and> n \<le> INT32_MAX then Inr (Counter32 n, p)
          else Inl (bad_value a v))"
    by (simp add: trap_value_def strtonum_signed_decimal [OF int32_in_llong(1,2,3)]
        split: option.split)
  show "trap_value w p a (CHR ''u'' # t) v =
     (case signed_decimal v of
        None \<Rightarrow> Inl (bad_value a v)
      | Some n \<Rightarrow>
          if LLONG_MIN \<le> n \<and> n \<le> LLONG_MAX then Inr (Integer n, p)
          else Inl (bad_value a v))"
    by (simp add: trap_value_def strtonum_signed_decimal [OF int32_in_llong(4,5,6)]
        split: option.split)
  show "trap_value w p a (CHR ''i'' # t) v = trap_value w p a (CHR ''u'' # t) v"
    by (simp add: trap_value_def)
qed

lemmas eval_decimal = signed_decimal_def isspace_def is_digit_def digit_of_def digits_value_def
  LLONG_MIN_def LLONG_MAX_def INT32_MIN_def INT32_MAX_def bad_value_def Let_def

theorem trap_integer_ranges_witness:
  "trap_value example_world NULL ''sysDescr.0'' ''c'' ''2147483647''
     = Inr (Counter32 2147483647, NULL) \<and>
   trap_value example_world NULL ''sysDescr.0'' ''c'' ''-2147483648''
     = Inr (Counter32 (- 2147483648), NULL) \<and>
   trap_value example_world NULL ''sysDescr.0'' ''c'' ''2147483648''
     = Inl (bad_value ''sysDescr.0'' ''2147483648'') \<and>
   trap_value example_world NULL ''sysDescr.0'' ''c'' ''12ab''
     = Inl (bad_value ''sysDescr.0'' ''12ab'') \<and>
   trap_value example_world NULL ''sysDescr.0'' ''u'' ''9223372036854775807''
     = Inr (Integer 9223372036854775807, NULL) \<and>
   trap_value example_world Freed ''sysDescr.0'' ''i'' ''-9223372036854775809''
     = Inl (bad_value ''sysDescr.0'' ''-9223372036854775809'')"
proof -
  have 1: "trap_value example_world NULL ''sysDescr.0'' ''c'' ''2147483647''
     = Inr (Counter32 2147483647, NULL)"
    using trap_integer_ranges [of example_world NULL "''sysDescr.0''" "[]" "''2147483647''"]
    by (simp add: eval_decimal)
  have 2: "trap_value example_world NULL ''sysDescr.0'' ''c'' ''-2147483648''
     = Inr (Counter32 (- 2147483648), NULL)"
    using trap_integer_ranges [of example_world NULL "''sysDescr.0''" "[]" "''-2147483648''"]
    by (simp add: eval_decimal)
  have 3: "trap_value example_world NULL ''sysDescr.0'' ''c'' ''2147483648''
     = Inl (bad_value ''sysDescr.0'' ''2147483648'')"
    using trap_integer_ranges [of example_world NULL "''sysDescr.0''" "[]" "''2147483648''"]
    by (simp add: eval_decimal)
  have 4: "trap_value example_world NULL ''sysDescr.0'' ''c'' ''12ab''
     = Inl (bad_value ''sysDescr.0'' ''12ab'')"
    using trap_integer_ranges [of example_world NULL "''sysDescr.0''" "[]" "''12ab''"]
    by (simp add: eval_decimal)
  have 5: "trap_value example_world NULL ''sysDescr.0'' ''u'' ''9223372036854775807''
     = Inr (Integer 9223372036854775807, NULL)"
    using trap_integer_ranges [of example_world NULL "''sysDescr.0''" "[]" "''9223372036854775807''"]
    by (simp add: eval_decimal)
  have 6: "trap_value example_world Freed ''sysDescr.0'' ''i'' ''-9223372036854775809''
     = Inl (bad_value ''sysDescr.0'' ''-9223372036854775809'')"
    using trap_integer_ranges [of example_world Freed "''sysDescr.0''" "[]" "''-9223372036854775809''"]
    by (simp add: eval_decimal)
  show ?thesis
    by (intro conjI 1 2 3 4 5 6)
qed

lemma nth_triple:
  "(a # t # v # rest) ! (3 * Suc j) = rest ! (3 * j)"
  "(a # t # v # rest) ! (3 * Suc j + 1) = rest ! (3 * j + 1)"
  "(a # t # v # rest) ! (3 * Suc j + 2) = rest ! (3 * j + 2)"
  by simp_all

text \<open>
  A triple that is encoded from some state of the pointer \<open>str\<close> is encoded to the same
  binding from any state in which the pointer is not freed, and a triple that fails from
  \<open>NULL\<close> fails from every state.
\<close>

lemma nat_div8: "0 \<le> l \<Longrightarrow> nat l div 8 = nat (l div 8)" "0 \<le> l \<Longrightarrow> nat l mod 8 = nat (l mod 8)"
  by (simp_all add: nat_div_distrib nat_mod_distrib)

lemma bits_pass_unfold:
  "bits_pass w a v tmpstr p str =
      (let l = sr_value (strtoll tmpstr 10); e = sr_endptr (strtoll tmpstr 10) in
       if e \<noteq> [] \<and> hd e \<noteq> CHR '' '' \<and> hd e \<noteq> CHR 0x09 \<and> hd e \<noteq> CHR '',''
       then Leave (bad_value a v)
       else if e = tmpstr then (if e = [] then Done (p, str) else Again (tl tmpstr) (p, str))
       else if l < 0 then Leave (bad_value a v)
       else if nat l div 8 \<ge> length str \<and> p = Freed then Leave Use_after_free
       else if nat l div 8 \<ge> length str \<and> \<not> alloc_ok w (nat l div 8 + 1)
       then Leave (Err ''malloc'')
       else if e = []
       then Done (if nat l div 8 \<ge> length str then Live else p, set_bit_be (nat l) str)
       else Again (tl e) (if nat l div 8 \<ge> length str then Live else p,
                          set_bit_be (nat l) str))"
proof -
  let ?l = "sr_value (strtoll tmpstr 10)"
  show ?thesis
  proof (cases "?l < 0")
    case True
    then show ?thesis
      unfolding bits_pass_def Let_def by (simp only: if_True)
  next
    case False
    then have "0 \<le> ?l" by simp
    note nat_div8 [OF this, symmetric]
    then show ?thesis
      unfolding bits_pass_def Let_def set_bit_be_def by (simp only:)
  qed
qed


lemma bits_pass_flat:
  assumes "l = sr_value (strtoll tmpstr 10)" "e = sr_endptr (strtoll tmpstr 10)"
    "bad = (e \<noteq> [] \<and> hd e \<noteq> CHR '' '' \<and> hd e \<noteq> CHR 0x09 \<and> hd e \<noteq> CHR '','')"
    "same = (e = tmpstr)" "fin = (e = [])" "grow = (nat l div 8 \<ge> length str)"
    "neg = (l < 0)" "fails = (\<not> alloc_ok w (nat l div 8 + 1))"
  shows "bits_pass w a v tmpstr p str =
      (if bad then Leave (bad_value a v)
       else if same then (if fin then Done (p, str) else Again (tl tmpstr) (p, str))
       else if neg then Leave (bad_value a v)
       else if grow \<and> p = Freed then Leave Use_after_free
       else if grow \<and> fails then Leave (Err ''malloc'')
       else if fin then Done (if grow then Live else p, set_bit_be (nat l) str)
       else Again (tl e) (if grow then Live else p, set_bit_be (nat l) str))"
  unfolding assms bits_pass_unfold Let_def by (rule refl)

lemma bits_pass_any:
  assumes "p' \<noteq> Freed"
  shows "bits_pass w a v tmpstr p str = Done s \<Longrightarrow>
         \<exists>q. q \<noteq> Freed \<and> bits_pass w a v tmpstr p' str = Done (q, snd s)"
    and "bits_pass w a v tmpstr p str = Again t s \<Longrightarrow>
         \<exists>q. q \<noteq> Freed \<and> bits_pass w a v tmpstr p' str = Again t (q, snd s)"
proof -
  define l where "l = sr_value (strtoll tmpstr 10)"
  define e where "e = sr_endptr (strtoll tmpstr 10)"
  define bad where
    "bad = (e \<noteq> [] \<and> hd e \<noteq> CHR '' '' \<and> hd e \<noteq> CHR 0x09 \<and> hd e \<noteq> CHR '','')"
  define same where "same = (e = tmpstr)"
  define fin where "fin = (e = [])"
  define grow where "grow = (nat l div 8 \<ge> length str)"
  define neg where "neg = (l < 0)"
  define fails where "fails = (\<not> alloc_ok w (nat l div 8 + 1))"
  note flat = bits_pass_flat [OF l_def e_def bad_def same_def fin_def grow_def neg_def fails_def]
  have "(bits_pass w a v tmpstr p str = Done s \<longrightarrow>
         (\<exists>q. q \<noteq> Freed \<and> bits_pass w a v tmpstr p' str = Done (q, snd s))) \<and>
        (bits_pass w a v tmpstr p str = Again t s \<longrightarrow>
         (\<exists>q. q \<noteq> Freed \<and> bits_pass w a v tmpstr p' str = Again t (q, snd s)))"
    unfolding flat [of a v p] flat [of a v p'] using assms
    by (cases bad; cases same; cases neg; cases grow; cases fin; cases fails; cases "p = Freed")
       auto
  then show "bits_pass w a v tmpstr p str = Done s \<Longrightarrow>
         \<exists>q. q \<noteq> Freed \<and> bits_pass w a v tmpstr p' str = Done (q, snd s)"
    and "bits_pass w a v tmpstr p str = Again t s \<Longrightarrow>
         \<exists>q. q \<noteq> Freed \<and> bits_pass w a v tmpstr p' str = Again t (q, snd s)"
    by simp_all
qed

lemma trap_bits_any:
  "trap_bits w a v tmpstr p str = Inr s \<Longrightarrow> p' \<noteq> Freed \<Longrightarrow>
   \<exists>q. q \<noteq> Freed \<and> trap_bits w a v tmpstr p' str = Inr (q, snd s)"
proof (induction w a v tmpstr p str arbitrary: p' rule: trap_bits.induct)
  case (1 w a v tmpstr p str)
  show ?case
  proof (cases "bits_pass w a v tmpstr p str")
    case (Leave e)
    with "1.prems"(1) show ?thesis
      by (simp add: trap_bits.simps [of w a v tmpstr p])
  next
    case (Done s')
    with "1.prems"(1) have "s' = s"
      by (simp add: trap_bits.simps [of w a v tmpstr p])
    with bits_pass_any(1) [OF "1.prems"(2) Done] show ?thesis
      by (auto simp: trap_bits.simps [of w a v tmpstr p'])
  next
    case (Again t s')
    with "1.prems"(1) have r: "trap_bits w a v t (fst s') (snd s') = Inr s"
      by (simp add: trap_bits.simps [of w a v tmpstr p])
    from bits_pass_any(2) [OF "1.prems"(2) Again] obtain q where
      q: "q \<noteq> Freed" "bits_pass w a v tmpstr p' str = Again t (q, snd s')"
      by auto
    from "1.IH" [OF Again r q(1)] obtain q' where
      "q' \<noteq> Freed" "trap_bits w a v t q (snd s') = Inr (q', snd s)"
      by auto
    with q(2) show ?thesis
      by (auto simp: trap_bits.simps [of w a v tmpstr p'])
  qed
qed

lemma trap_value_pointer:
  "c \<noteq> CHR ''b'' \<Longrightarrow>
   trap_value w p a (c # t') v =
     (case trap_value w NULL a (c # t') v of
        Inl e \<Rightarrow> Inl e
      | Inr r \<Rightarrow> Inr (fst r, if snd r = NULL then p else Live))"
  by (simp add: trap_value_def split: option.split sum.split)

lemma trap_value_not_bits:
  assumes "trap_value w p a (c # t') v = Inr r" "c \<noteq> CHR ''b''" "p' \<noteq> Freed"
  shows "\<exists>q. q \<noteq> Freed \<and> trap_value w p' a (c # t') v = Inr (fst r, q)"
proof (cases "trap_value w NULL a (c # t') v")
  case (Inl e)
  with assms(1) trap_value_pointer [OF assms(2), of w p a t' v] show ?thesis
    by simp
next
  case (Inr r0)
  with assms(1) trap_value_pointer [OF assms(2), of w p a t' v] have "fst r = fst r0"
    by auto
  with Inr trap_value_pointer [OF assms(2), of w p' a t' v] assms(3) show ?thesis
    by auto
qed

lemma trap_value_any:
  assumes "trap_value w p a t v = Inr r" "p' \<noteq> Freed"
  shows "\<exists>q. q \<noteq> Freed \<and> trap_value w p' a t v = Inr (fst r, q)"
proof (cases t)
  case Nil
  with assms(1) show ?thesis
    by (simp add: trap_value_def)
next
  case (Cons c t')
  show ?thesis
  proof (cases "c = CHR ''b''")
    case True
    from assms(1) obtain s where s: "trap_bits w a v v p [] = Inr s"
      and r: "r = (OctetString (snd s), fst s)"
      by (auto simp: trap_value_def Cons True split: sum.splits)
    from trap_bits_any [OF s assms(2)] obtain q where
      "q \<noteq> Freed" "trap_bits w a v v p' [] = Inr (q, snd s)"
      by auto
    with r show ?thesis
      by (auto simp: trap_value_def Cons True)
  next
    case False
    from assms(1) show ?thesis
      unfolding Cons by (rule trap_value_not_bits [OF _ False assms(2)])
  qed
qed

lemma trap_varbind_any:
  assumes "trap_varbind w p a t v = Inr r" "p' \<noteq> Freed"
  shows "\<exists>q. trap_varbind w p' a t v = Inr (fst r, q)"
proof -
  from assms(1) obtain oid r1 where oid: "smi_string2oid w a = Some oid"
    and v: "trap_value w p a t v = Inr r1" and b: "ber_printf_elements w oid (fst r1)"
    and r: "fst r = (oid, fst r1)"
    by (auto simp: trap_varbind_def split: option.splits sum.splits if_splits)
  from trap_value_any [OF v assms(2)] obtain q where
    q: "q \<noteq> Freed" "trap_value w p' a t v = Inr (fst r1, q)"
    by auto
  from q(1) obtain q' where "free q = Inr q'"
    by (cases q) (simp_all add: free_def)
  with oid b r q(2) show ?thesis
    by (simp add: trap_varbind_def)
qed

lemma trap_varbind_fails:
  assumes "trap_varbind w NULL a t v = Inl e"
  shows "\<exists>e'. trap_varbind w p a t v = Inl e'"
proof (cases "trap_varbind w p a t v")
  case (Inl e')
  then show ?thesis by simp
next
  case (Inr r)
  from trap_varbind_any [OF Inr, of NULL] assms show ?thesis
    by simp
qed

lemma trap_varbinds_fail:
  "3 * i + 2 < length args \<Longrightarrow>
   trap_varbind w NULL (args ! (3 * i)) (args ! (3 * i + 1)) (args ! (3 * i + 2)) = Inl e \<Longrightarrow>
   \<exists>e'. trap_varbinds w p args = Inl e'"
proof (induction w p args arbitrary: i rule: trap_varbinds.induct)
  case (1 w p a t v rest)
  show ?case
  proof (cases i)
    case 0
    with "1.prems" have "trap_varbind w NULL a t v = Inl e"
      by simp
    from trap_varbind_fails [OF this, of p] show ?thesis
      by auto
  next
    case (Suc j)
    show ?thesis
    proof (cases "trap_varbind w p a t v")
      case (Inl e0)
      then show ?thesis by simp
    next
      case (Inr r)
      from "1.prems" Suc have "3 * j + 2 < length rest"
        and "trap_varbind w NULL (rest ! (3 * j)) (rest ! (3 * j + 1)) (rest ! (3 * j + 2)) = Inl e"
        by (simp_all only: nth_triple) simp
      then have "\<exists>e'. trap_varbinds w (snd r) rest = Inl e'"
        by (rule "1.IH" [OF Inr])
      with Inr show ?thesis by auto
    qed
  qed
qed simp_all

lemma trap_varbinds_ok:
  "trap_varbinds w p args = Inr pdu \<Longrightarrow> length args mod 3 = 0 \<Longrightarrow>
   3 * length pdu = length args \<and>
   (\<forall>i<length pdu. \<exists>q.
      trap_varbind w NULL (args ! (3 * i)) (args ! (3 * i + 1)) (args ! (3 * i + 2))
      = Inr (pdu ! i, q))"
proof (induction w p args arbitrary: pdu rule: trap_varbinds.induct)
  case (1 w p a t v rest)
  from "1.prems"(1) obtain r vbs where vb: "trap_varbind w p a t v = Inr r"
    and vbs: "trap_varbinds w (snd r) rest = Inr vbs" and pdu: "pdu = fst r # vbs"
    by (auto split: sum.splits)
  from trap_varbind_any [OF vb, of NULL] obtain q0 where
    first: "trap_varbind w NULL a t v = Inr (fst r, q0)"
    by auto
  from "1.prems"(2) have "length rest mod 3 = 0"
    by (simp add: mod_Suc split: if_splits)
  with "1.IH" [OF vb vbs] have ih: "3 * length vbs = length rest"
    "\<And>j. j < length vbs \<Longrightarrow> \<exists>q.
      trap_varbind w NULL (rest ! (3 * j)) (rest ! (3 * j + 1)) (rest ! (3 * j + 2))
      = Inr (vbs ! j, q)"
    by simp_all
  show ?case
  proof (intro conjI allI impI)
    show "3 * length pdu = length (a # t # v # rest)"
      using ih(1) pdu by simp
  next
    fix i assume "i < length pdu"
    then show "\<exists>q. trap_varbind w NULL ((a # t # v # rest) ! (3 * i))
          ((a # t # v # rest) ! (3 * i + 1)) ((a # t # v # rest) ! (3 * i + 2)) = Inr (pdu ! i, q)"
    proof (cases i)
      case 0
      with first pdu show ?thesis by simp
    next
      case (Suc j)
      with \<open>i < length pdu\<close> pdu have "j < length vbs" by simp
      from ih(2) [OF this] show ?thesis
        unfolding Suc nth_triple pdu by simp
    qed
  qed
qed simp_all

lemma snmpc_trap_cases:
  "(requests (fst (snmpc_trap g w argv)) = [] \<and> (\<exists>e. snd (snmpc_trap g w argv) = Exit e)) \<or>
   (\<exists>ts oid pdu. trap_varbinds w NULL (drop 3 argv) = Inr pdu \<and> 3 \<le> length argv \<and>
      length argv mod 3 = 0 \<and>
      snmpc_trap g w argv = ([Connected (argv ! 0) ''162'', Sent (Trap ts oid pdu)], Return 0))"
  by (simp add: snmpc_trap_def split: option.split sum.split)

text \<open>
  C7. The trap command hands nothing to the transport unless every triple has been
  encoded. If the codec fails on any triple of OID, type and literal, the command exits
  and has sent no request. A notification that is sent carries one variable binding for
  each triple of the command line, in their order, each the codec's result for its triple.
  The codec's result for a triple is its result where \<open>str\<close> is \<open>NULL\<close>, as in a command
  that has this triple first. However the command exits, also through a pointer freed
  before, it has sent no request.
\<close>

theorem trap_atomic:
  "(\<forall>i e. 5 + 3 * i < length argv \<and>
      trap_varbind w NULL (argv ! (3 + 3 * i)) (argv ! (4 + 3 * i)) (argv ! (5 + 3 * i)) = Inl e
      \<longrightarrow> requests (fst (snmpc_trap g w argv)) = [] \<and>
          (\<exists>e'. snd (snmpc_trap g w argv) = Exit e')) \<and>
   (\<forall>ts oid pdu. Sent (Trap ts oid pdu) \<in> set (fst (snmpc_trap g w argv))
      \<longrightarrow> 3 + 3 * length pdu = length argv \<and>
          (\<forall>i<length pdu. \<exists>q.
             trap_varbind w NULL (argv ! (3 + 3 * i)) (argv ! (4 + 3 * i)) (argv ! (5 + 3 * i))
             = Inr (pdu ! i, q))) \<and>
   (\<forall>e. snd (snmpc_trap g w argv) = Exit e \<longrightarrow> requests (fst (snmpc_trap g w argv)) = [])"
proof -
  have A: "requests (fst (snmpc_trap g w argv)) = [] \<and> (\<exists>e'. snd (snmpc_trap g w argv) = Exit e')"
    if h1: "5 + 3 * i < length argv"
      and h2: "trap_varbind w NULL (argv ! (3 + 3 * i)) (argv ! (4 + 3 * i)) (argv ! (5 + 3 * i)) = Inl e"
    for i e
  proof -
    from h1 have b: "3 * i + 2 < length argv - 3"
      by arith
    then have nth: "drop 3 argv ! (3 * i) = argv ! (3 + 3 * i)"
      "drop 3 argv ! (3 * i + 1) = argv ! (4 + 3 * i)"
      "drop 3 argv ! (3 * i + 2) = argv ! (5 + 3 * i)"
      by (simp_all add: add.assoc [symmetric])
    from b have "3 * i + 2 < length (drop 3 argv)"
      by simp
    moreover from h2 have
      "trap_varbind w NULL (drop 3 argv ! (3 * i)) (drop 3 argv ! (3 * i + 1))
         (drop 3 argv ! (3 * i + 2)) = Inl e"
      by (simp only: nth)
    ultimately have f: "\<exists>e'. trap_varbinds w NULL (drop 3 argv) = Inl e'"
      by (rule trap_varbinds_fail)
    from snmpc_trap_cases [of g w argv] f show ?thesis
      by auto
  qed
  have B: "3 + 3 * length pdu = length argv \<and>
          (\<forall>i<length pdu. \<exists>q.
             trap_varbind w NULL (argv ! (3 + 3 * i)) (argv ! (4 + 3 * i)) (argv ! (5 + 3 * i))
             = Inr (pdu ! i, q))"
    if s: "Sent (Trap ts oid pdu) \<in> set (fst (snmpc_trap g w argv))" for ts oid pdu
  proof -
    have nr: "Sent r \<in> set ev \<Longrightarrow> requests ev \<noteq> []" for ev r
      by (induction ev rule: requests.induct) auto
    from s have ne: "requests (fst (snmpc_trap g w argv)) \<noteq> []"
      by (rule nr)
    have "\<exists>ts oid pdu. trap_varbinds w NULL (drop 3 argv) = Inr pdu \<and> 3 \<le> length argv \<and>
        length argv mod 3 = 0 \<and>
        snmpc_trap g w argv = ([Connected (argv ! 0) ''162'', Sent (Trap ts oid pdu)], Return 0)"
      using snmpc_trap_cases [of g w argv]
    proof (elim disjE)
      assume "requests (fst (snmpc_trap g w argv)) = [] \<and> (\<exists>e. snd (snmpc_trap g w argv) = Exit e)"
      with ne show ?thesis by simp
    qed
    then obtain ts' oid' pdu' where
      ok: "trap_varbinds w NULL (drop 3 argv) = Inr pdu'" "3 \<le> length argv" "length argv mod 3 = 0"
      and run: "snmpc_trap g w argv = ([Connected (argv ! 0) ''162'', Sent (Trap ts' oid' pdu')], Return 0)"
      by (elim exE conjE)
    from s run have pdu: "pdu' = pdu"
      by simp
    from ok(2,3) have "length (drop 3 argv) mod 3 = 0"
      by simp presburger
    from trap_varbinds_ok [OF ok(1) this] pdu ok(2)
    have len: "3 * length pdu = length argv - 3"
      and each: "\<And>i. i < length pdu \<Longrightarrow> \<exists>q.
        trap_varbind w NULL (drop 3 argv ! (3 * i)) (drop 3 argv ! (3 * i + 1))
          (drop 3 argv ! (3 * i + 2)) = Inr (pdu ! i, q)"
      by simp_all
    have "\<exists>q. trap_varbind w NULL (argv ! (3 + 3 * i)) (argv ! (4 + 3 * i)) (argv ! (5 + 3 * i))
               = Inr (pdu ! i, q)" if i: "i < length pdu" for i
    proof -
      from i len ok(2) have b: "3 * i + 2 < length argv - 3"
        by simp
      then have "drop 3 argv ! (3 * i) = argv ! (3 + 3 * i)"
        "drop 3 argv ! (3 * i + 1) = argv ! (4 + 3 * i)"
        "drop 3 argv ! (3 * i + 2) = argv ! (5 + 3 * i)"
        by (simp_all add: add.assoc [symmetric])
      with each [OF i] show ?thesis
        by simp
    qed
    moreover from len ok(2) have "3 + 3 * length pdu = length argv"
      by simp
    ultimately show ?thesis
      by simp
  qed
  have C: "requests (fst (snmpc_trap g w argv)) = []" if "snd (snmpc_trap g w argv) = Exit e" for e
    using snmpc_trap_cases [of g w argv] that by auto
  show ?thesis
  proof (intro conjI)
    show "\<forall>i e. 5 + 3 * i < length argv \<and>
      trap_varbind w NULL (argv ! (3 + 3 * i)) (argv ! (4 + 3 * i)) (argv ! (5 + 3 * i)) = Inl e
      \<longrightarrow> requests (fst (snmpc_trap g w argv)) = [] \<and>
          (\<exists>e'. snd (snmpc_trap g w argv) = Exit e')"
      using A by blast
    show "\<forall>ts oid pdu. Sent (Trap ts oid pdu) \<in> set (fst (snmpc_trap g w argv))
      \<longrightarrow> 3 + 3 * length pdu = length argv \<and>
          (\<forall>i<length pdu. \<exists>q.
             trap_varbind w NULL (argv ! (3 + 3 * i)) (argv ! (4 + 3 * i)) (argv ! (5 + 3 * i))
             = Inr (pdu ! i, q))"
      using B by blast
    show "\<forall>e. snd (snmpc_trap g w argv) = Exit e \<longrightarrow> requests (fst (snmpc_trap g w argv)) = []"
      using C by blast
  qed
qed

theorem trap_atomic_witness:
  "5 + 3 * 1 < length [''localhost'', '''', ''coldStart'', ''sysDescr.0'', ''s'', ''up'',
       ''sysObjectID.0'', ''x'', ''zz''] \<and>
   trap_varbind example_world NULL ''sysObjectID.0'' ''x'' ''zz''
     = Inl (bad_value ''sysObjectID.0'' ''zz'') \<and>
   requests (fst (snmpc_trap (default_globals ''trap'') example_world
     [''localhost'', '''', ''coldStart'', ''sysDescr.0'', ''s'', ''up'',
       ''sysObjectID.0'', ''x'', ''zz''])) = [] \<and>
   snd (snmpc_trap (default_globals ''trap'') example_world
     [''localhost'', '''', ''coldStart'', ''sysDescr.0'', ''s'', ''up'',
       ''sysObjectID.0'', ''x'', ''zz'']) = Exit (bad_value ''sysObjectID.0'' ''zz'') \<and>
   snmpc_trap (default_globals ''trap'') example_world
     [''localhost'', '''', ''coldStart'', ''sysDescr.0'', ''s'', ''up'',
       ''sysObjectID.0'', ''x'', ''0a''] =
     ([Connected ''localhost'' ''162'',
       Sent (Trap (0, 0) [1, 3, 6, 1, 6, 3, 1, 1, 5, 1]
         [([1, 3, 6, 1, 2, 1, 1, 1, 0], OctetString [0x75, 0x70]),
          ([1, 3, 6, 1, 2, 1, 1, 2, 0], OctetString [0x0A])])], Return 0)"
proof -
  let ?argv = "[''localhost'', '''', ''coldStart'', ''sysDescr.0'', ''s'', ''up'',
       ''sysObjectID.0'', ''x'', ''zz'']"
  have 1: "5 + 3 * 1 < length ?argv"
    by simp
  have 2: "trap_varbind example_world NULL ''sysObjectID.0'' ''x'' ''zz''
     = Inl (bad_value ''sysObjectID.0'' ''zz'')"
    by (simp add: trap_varbind_def eval_trap example_world_def)
  then have r2: "trap_varbind example_world NULL (?argv ! (3 + 3 * 1)) (?argv ! (4 + 3 * 1))
      (?argv ! (5 + 3 * 1)) = Inl (bad_value ''sysObjectID.0'' ''zz'')"
    by simp
  from trap_atomic [of ?argv example_world "default_globals ''trap''"] 1 r2
  have 3: "requests (fst (snmpc_trap (default_globals ''trap'') example_world ?argv)) = []"
    by blast
  have 4: "snd (snmpc_trap (default_globals ''trap'') example_world ?argv)
           = Exit (bad_value ''sysObjectID.0'' ''zz'')"
    by (simp add: eval_trap_command)
  have 5: "snmpc_trap (default_globals ''trap'') example_world
     [''localhost'', '''', ''coldStart'', ''sysDescr.0'', ''s'', ''up'',
       ''sysObjectID.0'', ''x'', ''0a''] =
     ([Connected ''localhost'' ''162'',
       Sent (Trap (0, 0) [1, 3, 6, 1, 6, 3, 1, 1, 5, 1]
         [([1, 3, 6, 1, 2, 1, 1, 1, 0], OctetString [0x75, 0x70]),
          ([1, 3, 6, 1, 2, 1, 1, 2, 0], OctetString [0x0A])])], Return 0)"
    by (simp add: eval_trap_command)
  show ?thesis
    by (intro conjI 1 2 3 4 5)
qed

section \<open>Properties of the walk\<close>

lemma ber_oid_cmp_range: "ber_oid_cmp a b \<in> {- 1, 0, 1, 2}"
  by (induction a b rule: ber_oid_cmp.induct) auto

lemma ber_oid_cmp_equal: "ber_oid_cmp a b = 0 \<longleftrightarrow> a = b"
  by (induction a b rule: ber_oid_cmp.induct) auto

lemma ber_oid_cmp_child: "ber_oid_cmp a b = 2 \<longleftrightarrow> strict_prefix a b"
  by (induction a b rule: ber_oid_cmp.induct) auto

lemma ber_oid_cmp_less: "ber_oid_cmp a b = - 1 \<longleftrightarrow> oid_less b a"
  by (induction a b rule: ber_oid_cmp.induct) (auto simp: oid_less_def)

lemma ber_oid_cmp_greater: "ber_oid_cmp a b = 1 \<longleftrightarrow> oid_less a b \<and> \<not> strict_prefix a b"
  by (induction a b rule: ber_oid_cmp.induct) (auto simp: oid_less_def)

lemma oid_less_irrefl: "\<not> oid_less a a"
  using ber_oid_cmp_less [of a a] ber_oid_cmp_equal [of a a] by simp

lemma oid_less_asym: "oid_less a b \<Longrightarrow> \<not> oid_less b a"
proof
  assume "oid_less a b" "oid_less b a"
  then have "ber_oid_cmp b a = - 1" "ber_oid_cmp a b = - 1"
    by (simp_all add: ber_oid_cmp_less)
  then show False
    by (induction a b rule: ber_oid_cmp.induct) (auto split: if_splits)
qed

lemma strict_prefix_oid_less: "strict_prefix a b \<Longrightarrow> oid_less a b"
proof -
  assume "strict_prefix a b"
  then have c: "ber_oid_cmp a b = 2"
    by (simp add: ber_oid_cmp_child)
  then show ?thesis
    by (induction a b rule: ber_oid_cmp.induct) (auto simp: oid_less_def split: if_splits)
qed

lemma emits_cmp:
  assumes "emits g w oid c vb"
  shows "\<not> is_eoc (snd vb)"
    "\<not> (walk_check_increase g \<and> ber_oid_cmp c (fst vb) = - 1)"
    "\<not> (ber_oid_cmp c (fst vb) = 0 \<or> ber_oid_cmp oid (fst vb) \<noteq> 2)"
    "\<not> (walk_end g \<noteq> [] \<and> ber_oid_cmp (walk_end g) (fst vb) \<noteq> - 1)"
    "snmpc_print w vb"
proof -
  from assms show "\<not> is_eoc (snd vb)" "snmpc_print w vb"
    by (simp_all add: emits_def)
  from assms have sp: "strict_prefix oid (fst vb)"
    and inc: "if walk_check_increase g then oid_less c (fst vb) else fst vb \<noteq> c"
    and en: "walk_end g = [] \<or> oid_less (fst vb) (walk_end g)"
    by (simp_all add: emits_def)
  from inc show "\<not> (walk_check_increase g \<and> ber_oid_cmp c (fst vb) = - 1)"
    by (auto simp: ber_oid_cmp_less dest: oid_less_asym)
  from inc have "fst vb \<noteq> c"
    using oid_less_irrefl by (auto split: if_splits)
  with sp show "\<not> (ber_oid_cmp c (fst vb) = 0 \<or> ber_oid_cmp oid (fst vb) \<noteq> 2)"
    by (auto simp: ber_oid_cmp_equal ber_oid_cmp_child)
  from en show "\<not> (walk_end g \<noteq> [] \<and> ber_oid_cmp (walk_end g) (fst vb) \<noteq> - 1)"
    by (auto simp: ber_oid_cmp_less)
qed

lemma walk_varbinds_emits:
  assumes "emits g w oid c vb"
  shows "walk_varbinds g w oid c noid [vb] = ([Printed vb], 1, Inr (False, fst vb))"
  using emits_cmp [OF assms] by simp

lemma walk_loop_emits:
  assumes "emits g w oid c vb"
  shows "walk_loop g w oid c (reply vb # replies) =
         (case walk_loop g w oid (fst vb) replies of
            (ev, n, r) \<Rightarrow> (Sent (walk_request g c) # Printed vb # ev, Suc n, r))"
  by (simp add: reply_def walk_varbinds_emits [OF assms] del: walk_varbinds.simps
      split: prod.split)

lemma walk_loop_accepts:
  assumes "walk_accepts g w oid c vbs"
  shows "walk_loop g w oid c (map reply vbs @ replies) =
         (case walk_loop g w oid (last_oid c vbs) replies of
            (ev, n, r) \<Rightarrow> (walk_events g c vbs @ ev, length vbs + n, r))"
  using assms
proof (induction vbs arbitrary: c)
  case Nil
  then show ?case by (simp split: prod.split)
next
  case (Cons vb vbs)
  then have e: "emits g w oid c vb" and a: "walk_accepts g w oid (fst vb) vbs"
    by simp_all
  show ?case
    by (simp add: walk_loop_emits [OF e] Cons.IH [OF a] del: walk_loop.simps split: prod.split)
qed

lemma walk_loop_outside:
  assumes "\<not> strict_prefix oid (fst vb)"
  shows "walk_loop g w oid c (reply vb # replies) =
         ([Sent (walk_request g c)], 0,
          if \<not> is_eoc (snd vb) \<and> walk_check_increase g \<and> oid_less (fst vb) c
          then Some (Errx ''OID not increasing'') else None)"
  using assms by (simp add: reply_def ber_oid_cmp_child ber_oid_cmp_less)

lemma walk_loop_same:
  assumes "fst vb = c"
  shows "walk_loop g w oid c (reply vb # replies) = ([Sent (walk_request g c)], 0, None)"
  using assms by (simp add: reply_def ber_oid_cmp_equal ber_oid_cmp_less oid_less_irrefl)

lemma walk_loop_smaller:
  assumes "walk_check_increase g" "\<not> is_eoc (snd vb)" "oid_less (fst vb) c"
  shows "walk_loop g w oid c (reply vb # replies) =
         ([Sent (walk_request g c)], 0, Some (Errx ''OID not increasing''))"
  using assms by (simp add: reply_def ber_oid_cmp_less)

lemma printed_append: "printed (ev @ ev') = printed ev @ printed ev'"
  by (induction ev rule: printed.induct) simp_all

lemma requests_append: "requests (ev @ ev') = requests ev @ requests ev'"
  by (induction ev rule: requests.induct) simp_all

lemma printed_walk_events: "printed (walk_events g c vbs) = vbs"
  by (induction vbs arbitrary: c) simp_all

lemma walk_varbinds_count:
  "walk_varbinds g w oid loid noid vbs = (ev, n, r) \<Longrightarrow> n = length (printed ev) \<and> requests ev = []"
proof (induction vbs arbitrary: noid ev n r)
  case Nil
  then show ?case by auto
next
  case (Cons vb vbs)
  then show ?case
    by (auto split: if_splits prod.splits)
qed

lemma walk_loop_count:
  "walk_loop g w oid noid replies = (ev, n, r) \<Longrightarrow> n = length (printed ev)"
proof (induction replies arbitrary: noid ev n r)
  case Nil
  then show ?case by auto
next
  case (Cons pdu replies)
  show ?case
  proof (cases "errorstatus pdu \<noteq> 0")
    case True
    with Cons.prems show ?thesis by auto
  next
    case False
    obtain ev1 n1 r1 where v: "walk_varbinds g w oid noid noid (varbinds pdu) = (ev1, n1, r1)"
      by (cases "walk_varbinds g w oid noid noid (varbinds pdu)") auto
    from walk_varbinds_count [OF v] have n1: "n1 = length (printed ev1)"
      by simp
    show ?thesis
    proof (cases r1)
      case (Inl e)
      with Cons.prems False v n1 show ?thesis by auto
    next
      case (Inr br)
      obtain b noid' where br: "br = (b, noid')" by (cases br)
      show ?thesis
      proof (cases b)
        case True
        with Cons.prems False v n1 Inr br show ?thesis by auto
      next
        case b: False
        obtain ev2 n2 r2 where l: "walk_loop g w oid noid' replies = (ev2, n2, r2)"
          by (cases "walk_loop g w oid noid' replies") auto
        from Cons.IH [OF l] have "n2 = length (printed ev2)" .
        with Cons.prems False v n1 Inr br b l show ?thesis
          by (auto simp: printed_append)
      qed
    qed
  qed
qed

lemma walk_loop_subtree:
  assumes "walk_accepts g w oid c vbs" and "\<not> strict_prefix oid (fst out)"
  shows "walk_loop g w oid c (map reply vbs @ reply out # rest) =
           (walk_events g c vbs @ [Sent (walk_request g (last_oid c vbs))], length vbs,
            if \<not> is_eoc (snd out) \<and> walk_check_increase g \<and> oid_less (fst out) (last_oid c vbs)
            then Some (Errx ''OID not increasing'') else None)"
  by (simp add: walk_loop_accepts [OF assms(1)] walk_loop_outside [OF assms(2)]
      del: walk_loop.simps)

lemma printed_walk_get:
  "walk_get g w argv oid = (ev, r) \<Longrightarrow>
   requests ev = [Get [oid]] \<and> length (printed ev) = (if r = None then 1 else 0)"
  by (auto simp: walk_get_def split: option.splits if_splits list.splits)

lemma walk_get_root_binding:
  "printed (fst (walk_get g w argv oid)) =
     (case root_binding w oid of None \<Rightarrow> [] | Some vb \<Rightarrow> [vb])"
  "snd (walk_get g w argv oid) = None \<longleftrightarrow> root_binding w oid \<noteq> None"
  "requests (fst (walk_get g w argv oid)) = [Get [oid]]"
  by (simp_all add: walk_get_def root_binding_def split: option.split list.split)

lemmas eval_walk =
  snmpc_walk_def walk_from_def walk_get_def reply_def is_eoc_def BER_CLASS_CONTEXT_def
  BER_TYPE_EOC_def snmpc_print_def walk_request_def walk_name_def example_world_def
  default_globals_def octet_value_def subtree_world_def leaf_world_def repeating_world_def
  decreasing_world_def argv_at_def printerror_at_def Let_def

lemmas eval_emits =
  emits_def oid_less_def is_eoc_def BER_CLASS_CONTEXT_def BER_TYPE_EOC_def snmpc_print_def
  example_world_def default_globals_def octet_value_def subtree_world_def leaf_world_def
  repeating_world_def decreasing_world_def

lemma walk_subtree_run:
  "snmpc_walk ((default_globals ''walk'')\<lparr>print_summary := True\<rparr>) subtree_world
     [''localhost'', ''system''] =
     ([Connected ''localhost'' ''161'',
       Sent (GetNext [[1, 3, 6, 1, 2, 1, 1]]),
       Printed ([1, 3, 6, 1, 2, 1, 1, 1], octet_value),
       Sent (GetNext [[1, 3, 6, 1, 2, 1, 1, 1]]),
       Printed ([1, 3, 6, 1, 2, 1, 1, 2], octet_value),
       Sent (GetNext [[1, 3, 6, 1, 2, 1, 1, 2]]),
       Summary 2], Return 0)"
  by (simp add: eval_walk)

lemma walk_decreasing_run:
  "snmpc_walk (default_globals ''walk'') decreasing_world [''localhost'', ''system''] =
     ([Connected ''localhost'' ''161'',
       Sent (GetNext [[1, 3, 6, 1, 2, 1, 1]]),
       Printed ([1, 3, 6, 1, 2, 1, 1, 2, 0], octet_value),
       Sent (GetNext [[1, 3, 6, 1, 2, 1, 1, 2, 0]])], Exit (Errx ''OID not increasing''))"
  by (simp add: eval_walk)

section \<open>The claims about the walk commands\<close>

text \<open>
  C1, as the code has it. Take any sequence of GETNEXT replies, one binding per reply and
  no error status, in which a reply returns an OID that is not a strict descendant of the
  root, and in which every binding before that reply is one the loop emits: a strict
  descendant of the root whose value is not the end marker and has a text, whose OID is
  greater than the OID asked for (differs from it when \<open>walk_check_increase\<close> is off) and
  is below \<open>walk_end\<close> when that is set. Then the loop ends with the reply that is
  outside the subtree, after one request for each of these replies, and has printed
  exactly the bindings before it, in the order received; it ends fatally with "OID not
  increasing" when the OID outside the subtree is less than the OID asked for and the
  check is on. The whole command prints these bindings, after the binding that the GET of
  the root gives under \<open>walk_include_oid\<close>, or, when there are none, the loop did not
  end fatally and \<open>walk_fallback_oid\<close> is on, followed by the binding that the GET of the
  root gives. Where that GET gives no binding the command exits at the GET: under
  \<open>walk_include_oid\<close> it has then printed nothing.
\<close>

theorem walk_subtree:
  assumes "walk_replies w = map reply vbs @ reply out # rest"
    and "walk_accepts g w oid oid vbs"
    and "\<not> strict_prefix oid (fst out)"
  shows "walk_loop g w oid oid (walk_replies w) =
           (walk_events g oid vbs @ [Sent (walk_request g (last_oid oid vbs))], length vbs,
            if \<not> is_eoc (snd out) \<and> walk_check_increase g \<and> oid_less (fst out) (last_oid oid vbs)
            then Some (Errx ''OID not increasing'') else None) \<and>
         printed (fst (walk_from g w argv oid)) =
           (if walk_include_oid g
            then (case root_binding w oid of None \<Rightarrow> [] | Some rvb \<Rightarrow> rvb # vbs)
            else vbs @
                 (if walk_fallback_oid g \<and> vbs = [] \<and>
                     \<not> (\<not> is_eoc (snd out) \<and> walk_check_increase g \<and> oid_less (fst out) oid)
                  then (case root_binding w oid of None \<Rightarrow> [] | Some rvb \<Rightarrow> [rvb])
                  else []))"
proof -
  have l: "walk_loop g w oid oid (walk_replies w) =
           (walk_events g oid vbs @ [Sent (walk_request g (last_oid oid vbs))], length vbs,
            if \<not> is_eoc (snd out) \<and> walk_check_increase g \<and> oid_less (fst out) (last_oid oid vbs)
            then Some (Errx ''OID not increasing'') else None)"
    unfolding assms(1) by (rule walk_loop_subtree [OF assms(2,3)])
  obtain evg rg where G: "walk_get g w argv oid = (evg, rg)"
    by (cases "walk_get g w argv oid") auto
  have p: "printed (fst (walk_from g w argv oid)) =
           (if walk_include_oid g
            then printed evg @ (if rg = None then vbs else [])
            else vbs @
                 (if walk_fallback_oid g \<and> vbs = [] \<and>
                     \<not> (\<not> is_eoc (snd out) \<and> walk_check_increase g \<and> oid_less (fst out) oid)
                  then printed evg else []))"
  proof (cases "walk_include_oid g")
    case True
    then show ?thesis
      by (cases rg)
         (simp_all add: walk_from_def l G Let_def printed_append printed_walk_events
           del: walk_loop.simps)
  next
    case False
    show ?thesis
    proof (cases vbs)
      case Nil
      with False show ?thesis
        by (cases rg)
           (simp_all add: walk_from_def l G Let_def printed_append del: walk_loop.simps)
    next
      case (Cons vb vbs')
      with False show ?thesis
        by (simp add: walk_from_def l Let_def printed_append printed_walk_events
            del: walk_loop.simps)
    qed
  qed
  from walk_get_root_binding(1,2) [of g w argv oid] G
  have evg: "printed evg = (case root_binding w oid of None \<Rightarrow> [] | Some vb \<Rightarrow> [vb])"
    and rg: "rg = None \<longleftrightarrow> root_binding w oid \<noteq> None"
    by simp_all
  have q: "printed evg @ (if rg = None then vbs else []) =
           (case root_binding w oid of None \<Rightarrow> [] | Some rvb \<Rightarrow> rvb # vbs)"
    unfolding evg rg by (cases "root_binding w oid") simp_all
  have p': "printed (fst (walk_from g w argv oid)) =
           (if walk_include_oid g
            then (case root_binding w oid of None \<Rightarrow> [] | Some rvb \<Rightarrow> rvb # vbs)
            else vbs @
                 (if walk_fallback_oid g \<and> vbs = [] \<and>
                     \<not> (\<not> is_eoc (snd out) \<and> walk_check_increase g \<and> oid_less (fst out) oid)
                  then (case root_binding w oid of None \<Rightarrow> [] | Some rvb \<Rightarrow> [rvb])
                  else []))"
  proof (cases "walk_include_oid g")
    case True
    then show ?thesis
      by (simp only: p if_True q)
  next
    case False
    then show ?thesis
      by (simp only: p if_False evg)
  qed
  from l p' show ?thesis
    by (rule conjI)
qed

theorem walk_subtree_witness:
  "walk_replies subtree_world =
     map reply [([1, 3, 6, 1, 2, 1, 1, 1], octet_value), ([1, 3, 6, 1, 2, 1, 1, 2], octet_value)]
     @ reply ([1, 3, 6, 1, 2, 1, 2, 1], octet_value) # [] \<and>
   walk_accepts ((default_globals ''walk'')\<lparr>print_summary := True\<rparr>) subtree_world
     [1, 3, 6, 1, 2, 1, 1] [1, 3, 6, 1, 2, 1, 1]
     [([1, 3, 6, 1, 2, 1, 1, 1], octet_value), ([1, 3, 6, 1, 2, 1, 1, 2], octet_value)] \<and>
   \<not> strict_prefix [1, 3, 6, 1, 2, 1, 1] (fst ([1, 3, 6, 1, 2, 1, 2, 1 :: nat], octet_value)) \<and>
   printed (fst (walk_from ((default_globals ''walk'')\<lparr>print_summary := True\<rparr>) subtree_world
     [''localhost'', ''system''] [1, 3, 6, 1, 2, 1, 1])) =
     [([1, 3, 6, 1, 2, 1, 1, 1], octet_value), ([1, 3, 6, 1, 2, 1, 1, 2], octet_value)] \<and>
   snmpc_walk ((default_globals ''walk'')\<lparr>print_summary := True\<rparr>) subtree_world
     [''localhost'', ''system''] =
     ([Connected ''localhost'' ''161'',
       Sent (GetNext [[1, 3, 6, 1, 2, 1, 1]]),
       Printed ([1, 3, 6, 1, 2, 1, 1, 1], octet_value),
       Sent (GetNext [[1, 3, 6, 1, 2, 1, 1, 1]]),
       Printed ([1, 3, 6, 1, 2, 1, 1, 2], octet_value),
       Sent (GetNext [[1, 3, 6, 1, 2, 1, 1, 2]]),
       Summary 2], Return 0) \<and>
   walk_replies leaf_world = map reply [] @ reply ([1, 3, 6, 1, 2, 1, 1, 2, 0], octet_value) # [] \<and>
   walk_accepts ((default_globals ''walk'')\<lparr>walk_include_oid := True\<rparr>) leaf_world
     [1, 3, 6, 1, 2, 1, 1, 1, 0] [1, 3, 6, 1, 2, 1, 1, 1, 0] [] \<and>
   \<not> strict_prefix [1, 3, 6, 1, 2, 1, 1, 1, 0]
       (fst ([1, 3, 6, 1, 2, 1, 1, 2, 0 :: nat], octet_value)) \<and>
   root_binding leaf_world [1, 3, 6, 1, 2, 1, 1, 1, 0]
     = Some ([1, 3, 6, 1, 2, 1, 1, 1, 0], octet_value) \<and>
   printed (fst (walk_from ((default_globals ''walk'')\<lparr>walk_include_oid := True\<rparr>) leaf_world
     [''localhost'', ''sysDescr.0''] [1, 3, 6, 1, 2, 1, 1, 1, 0])) =
     [([1, 3, 6, 1, 2, 1, 1, 1, 0], octet_value)] \<and>
   printed (fst (walk_from (default_globals ''walk'') leaf_world
     [''localhost'', ''sysDescr.0''] [1, 3, 6, 1, 2, 1, 1, 1, 0])) =
     [([1, 3, 6, 1, 2, 1, 1, 1, 0], octet_value)]"
proof -
  let ?g = "(default_globals ''walk'')\<lparr>print_summary := True\<rparr>"
  let ?gi = "(default_globals ''walk'')\<lparr>walk_include_oid := True\<rparr>"
  let ?gd = "default_globals ''walk''"
  let ?vbs = "[([1, 3, 6, 1, 2, 1, 1, 1], octet_value), ([1, 3, 6, 1, 2, 1, 1, 2], octet_value)]"
  let ?out = "([1, 3, 6, 1, 2, 1, 2, 1 :: nat], octet_value)"
  let ?leaf = "[1, 3, 6, 1, 2, 1, 1, 1, 0 :: nat]"
  let ?next = "([1, 3, 6, 1, 2, 1, 1, 2, 0 :: nat], octet_value)"
  have h1: "walk_replies subtree_world = map reply ?vbs @ reply ?out # []"
    by (simp add: subtree_world_def)
  have h2: "walk_accepts ?g subtree_world [1, 3, 6, 1, 2, 1, 1] [1, 3, 6, 1, 2, 1, 1] ?vbs"
    by (simp add: eval_emits)
  have h3: "\<not> strict_prefix [1, 3, 6, 1, 2, 1, 1] (fst ?out)"
    by simp
  from walk_subtree [OF h1 h2 h3, of "[''localhost'', ''system'']"]
  have p: "printed (fst (walk_from ?g subtree_world [''localhost'', ''system'']
             [1, 3, 6, 1, 2, 1, 1])) = ?vbs"
    by (simp add: default_globals_def)
  have k1: "walk_replies leaf_world = map reply [] @ reply ?next # []"
    by (simp add: leaf_world_def)
  have k2: "walk_accepts ?gi leaf_world ?leaf ?leaf []"
    by simp
  have k2': "walk_accepts ?gd leaf_world ?leaf ?leaf []"
    by simp
  have k3: "\<not> strict_prefix ?leaf (fst ?next)"
    by simp
  have rb: "root_binding leaf_world ?leaf = Some (?leaf, octet_value)"
    by (simp add: root_binding_def leaf_world_def reply_def snmpc_print_def example_world_def)
  have less: "\<not> oid_less (fst ?next) ?leaf"
    by (simp add: oid_less_def)
  have pi: "printed (fst (walk_from ?gi leaf_world [''localhost'', ''sysDescr.0''] ?leaf))
            = [(?leaf, octet_value)]"
    using walk_subtree [OF k1 k2 k3, of "[''localhost'', ''sysDescr.0'']", THEN conjunct2]
    unfolding rb by (simp add: default_globals_def)
  have pd: "printed (fst (walk_from ?gd leaf_world [''localhost'', ''sysDescr.0''] ?leaf))
            = [(?leaf, octet_value)]"
    using walk_subtree [OF k1 k2' k3, of "[''localhost'', ''sysDescr.0'']", THEN conjunct2] less
    unfolding rb by (simp add: default_globals_def)
  show ?thesis
    by (intro conjI h1 h2 h3 p walk_subtree_run k1 k2 k3 rb pi pd)
qed

text \<open>
  C1 as stated fails, at two inputs. A walk of \<open>sysDescr.0\<close> whose first reply is outside
  the subtree prints the binding of the root itself, from the GET of \<open>walk_fallback_oid\<close>,
  although \<open>walk_include_oid\<close> is off. A walk of \<open>system\<close> that receives two bindings
  below the root, the second with the smaller OID, and then one outside, prints the first
  binding only and exits with "OID not increasing".
\<close>

theorem walk_subtree_counterexample:
  "\<not> walk_include_oid (default_globals ''walk'') \<and>
   smi_string2oid leaf_world ''sysDescr.0'' = Some [1, 3, 6, 1, 2, 1, 1, 1, 0] \<and>
   walk_replies leaf_world = [reply ([1, 3, 6, 1, 2, 1, 1, 2, 0], octet_value)] \<and>
   \<not> strict_prefix [1, 3, 6, 1, 2, 1, 1, 1, 0] [1, 3, 6, 1, 2, 1, 1, 2, 0 :: nat] \<and>
   snmpc_walk (default_globals ''walk'') leaf_world [''localhost'', ''sysDescr.0''] =
     ([Connected ''localhost'' ''161'',
       Sent (GetNext [[1, 3, 6, 1, 2, 1, 1, 1, 0]]),
       Sent (Get [[1, 3, 6, 1, 2, 1, 1, 1, 0]]),
       Printed ([1, 3, 6, 1, 2, 1, 1, 1, 0], octet_value)], Return 0) \<and>
   smi_string2oid decreasing_world ''system'' = Some [1, 3, 6, 1, 2, 1, 1] \<and>
   walk_replies decreasing_world =
     [reply ([1, 3, 6, 1, 2, 1, 1, 2, 0], octet_value),
      reply ([1, 3, 6, 1, 2, 1, 1, 1, 0], octet_value),
      reply ([1, 3, 6, 1, 2, 1, 2, 1, 0], octet_value)] \<and>
   strict_prefix [1, 3, 6, 1, 2, 1, 1] [1, 3, 6, 1, 2, 1, 1, 2, 0 :: nat] \<and>
   strict_prefix [1, 3, 6, 1, 2, 1, 1] [1, 3, 6, 1, 2, 1, 1, 1, 0 :: nat] \<and>
   \<not> strict_prefix [1, 3, 6, 1, 2, 1, 1] [1, 3, 6, 1, 2, 1, 2, 1, 0 :: nat] \<and>
   snmpc_walk (default_globals ''walk'') decreasing_world [''localhost'', ''system''] =
     ([Connected ''localhost'' ''161'',
       Sent (GetNext [[1, 3, 6, 1, 2, 1, 1]]),
       Printed ([1, 3, 6, 1, 2, 1, 1, 2, 0], octet_value),
       Sent (GetNext [[1, 3, 6, 1, 2, 1, 1, 2, 0]])], Exit (Errx ''OID not increasing''))"
  by (simp add: eval_walk)

text \<open>
  C2, as the code has it. With \<open>walk_check_increase\<close> on, a binding that the loop reaches,
  whose value is not the end marker and whose OID is lexicographically less than the OID
  asked for in that round trip, ends the command with "OID not increasing", and nothing
  more is printed. A binding whose OID equals the OID asked for ends the walk quietly: the
  loop is left without an error and the binding is not printed. Both are shown for a
  walk of replies with one binding each, and for any binding of a reply with several.
\<close>

theorem walk_not_increasing:
  assumes "walk_check_increase g" and "walk_accepts g w oid c vbs" and "\<not> is_eoc (snd vb)"
  shows "(oid_less (fst vb) (last_oid c vbs) \<longrightarrow>
            walk_loop g w oid c (map reply vbs @ reply vb # rest) =
              (walk_events g c vbs @ [Sent (walk_request g (last_oid c vbs))], length vbs,
               Some (Errx ''OID not increasing''))) \<and>
         (fst vb = last_oid c vbs \<longrightarrow>
            walk_loop g w oid c (map reply vbs @ reply vb # rest) =
              (walk_events g c vbs @ [Sent (walk_request g (last_oid c vbs))], length vbs,
               None)) \<and>
         (oid_less (fst vb) loid \<longrightarrow>
            walk_varbinds g w oid loid noid (vb # others) =
              ([], 0, Inl (Errx ''OID not increasing''))) \<and>
         (fst vb = loid \<longrightarrow>
            walk_varbinds g w oid loid noid (vb # others) = ([], 0, Inr (True, fst vb)))"
proof (intro conjI impI)
  assume "oid_less (fst vb) (last_oid c vbs)"
  then show "walk_loop g w oid c (map reply vbs @ reply vb # rest) =
              (walk_events g c vbs @ [Sent (walk_request g (last_oid c vbs))], length vbs,
               Some (Errx ''OID not increasing''))"
    by (simp add: walk_loop_accepts [OF assms(2)] walk_loop_smaller [OF assms(1,3)]
        del: walk_loop.simps)
next
  assume "fst vb = last_oid c vbs"
  then show "walk_loop g w oid c (map reply vbs @ reply vb # rest) =
              (walk_events g c vbs @ [Sent (walk_request g (last_oid c vbs))], length vbs, None)"
    by (simp add: walk_loop_accepts [OF assms(2)] walk_loop_same del: walk_loop.simps)
next
  assume "oid_less (fst vb) loid"
  with assms(1,3) show "walk_varbinds g w oid loid noid (vb # others) =
              ([], 0, Inl (Errx ''OID not increasing''))"
    by (simp add: ber_oid_cmp_less)
next
  assume "fst vb = loid"
  with assms(3) show "walk_varbinds g w oid loid noid (vb # others) = ([], 0, Inr (True, fst vb))"
    by (simp add: ber_oid_cmp_less ber_oid_cmp_equal oid_less_irrefl)
qed

theorem walk_not_increasing_witness:
  "walk_check_increase (default_globals ''walk'') \<and>
   walk_accepts (default_globals ''walk'') decreasing_world [1, 3, 6, 1, 2, 1, 1]
     [1, 3, 6, 1, 2, 1, 1] [([1, 3, 6, 1, 2, 1, 1, 2, 0], octet_value)] \<and>
   \<not> is_eoc (snd ([1, 3, 6, 1, 2, 1, 1, 1, 0 :: nat], octet_value)) \<and>
   oid_less [1, 3, 6, 1, 2, 1, 1, 1, 0] [1, 3, 6, 1, 2, 1, 1, 2, 0] \<and>
   walk_loop (default_globals ''walk'') decreasing_world [1, 3, 6, 1, 2, 1, 1]
     [1, 3, 6, 1, 2, 1, 1] (walk_replies decreasing_world) =
     ([Sent (GetNext [[1, 3, 6, 1, 2, 1, 1]]),
       Printed ([1, 3, 6, 1, 2, 1, 1, 2, 0], octet_value),
       Sent (GetNext [[1, 3, 6, 1, 2, 1, 1, 2, 0]])], 1, Some (Errx ''OID not increasing'')) \<and>
   snmpc_walk (default_globals ''walk'') decreasing_world [''localhost'', ''system''] =
     ([Connected ''localhost'' ''161'',
       Sent (GetNext [[1, 3, 6, 1, 2, 1, 1]]),
       Printed ([1, 3, 6, 1, 2, 1, 1, 2, 0], octet_value),
       Sent (GetNext [[1, 3, 6, 1, 2, 1, 1, 2, 0]])], Exit (Errx ''OID not increasing''))"
proof -
  let ?g = "default_globals ''walk''"
  let ?vb = "([1, 3, 6, 1, 2, 1, 1, 1, 0 :: nat], octet_value)"
  have h1: "walk_check_increase ?g"
    by (simp add: default_globals_def)
  have h2: "walk_accepts ?g decreasing_world [1, 3, 6, 1, 2, 1, 1] [1, 3, 6, 1, 2, 1, 1]
     [([1, 3, 6, 1, 2, 1, 1, 2, 0], octet_value)]"
    by (simp add: eval_emits)
  have h3: "\<not> is_eoc (snd ?vb)"
    by (simp add: eval_emits)
  have h4: "oid_less [1, 3, 6, 1, 2, 1, 1, 1, 0] [1, 3, 6, 1, 2, 1, 1, 2, 0]"
    by (simp add: oid_less_def)
  from walk_not_increasing [OF h1 h2 h3,
      of "[reply ([1, 3, 6, 1, 2, 1, 2, 1, 0], octet_value)]"] h4
  have l: "walk_loop ?g decreasing_world [1, 3, 6, 1, 2, 1, 1] [1, 3, 6, 1, 2, 1, 1]
      (walk_replies decreasing_world) =
     ([Sent (GetNext [[1, 3, 6, 1, 2, 1, 1]]),
       Printed ([1, 3, 6, 1, 2, 1, 1, 2, 0], octet_value),
       Sent (GetNext [[1, 3, 6, 1, 2, 1, 1, 2, 0]])], 1, Some (Errx ''OID not increasing''))"
    by (simp add: decreasing_world_def walk_request_def default_globals_def
        del: walk_loop.simps)
  show ?thesis
    by (intro conjI h1 h2 h3 h4 l walk_decreasing_run)
qed

text \<open>
  C2 as stated fails: with \<open>walk_check_increase\<close> on, a reply that repeats the OID asked
  for does not end the command with an error; the command returns 0.
\<close>

theorem walk_repeat_counterexample:
  "walk_check_increase (default_globals ''walk'') \<and>
   snmpc_walk (default_globals ''walk'') repeating_world [''localhost'', ''system''] =
     ([Connected ''localhost'' ''161'',
       Sent (GetNext [[1, 3, 6, 1, 2, 1, 1]]),
       Printed ([1, 3, 6, 1, 2, 1, 1, 1, 0], octet_value),
       Sent (GetNext [[1, 3, 6, 1, 2, 1, 1, 1, 0]])], Return 0)"
  by (simp add: eval_walk)

text \<open>
  C6, as the code has it. Let \<open>ev0\<close> be the events of the GET under
  \<open>walk_include_oid\<close> and \<open>ev1\<close> those of the loop. What the command does after the
  loop, \<open>ev2\<close>, sends exactly one request, a GET of the root, when neither that GET nor
  the loop has ended in an exit, \<open>walk_fallback_oid\<close> is on and nothing has been printed
  so far, and no request otherwise; and it prints at most one binding.
\<close>

theorem walk_fallback:
  assumes "(if walk_include_oid g then walk_get g w argv oid else ([], None)) = (ev0, r0)"
    and "walk_loop g w oid oid (walk_replies w) = (ev1, n1, r1)"
  shows "\<exists>ev2. fst (walk_from g w argv oid) = (if r0 = None then ev0 @ ev1 @ ev2 else ev0) \<and>
           requests ev2 =
             (if r0 = None \<and> r1 = None \<and> walk_fallback_oid g \<and> printed (ev0 @ ev1) = []
              then [Get [oid]] else []) \<and>
           length (printed ev2) \<le> 1"
proof -
  have n1: "n1 = length (printed ev1)"
    by (rule walk_loop_count [OF assms(2)])
  have p0: "printed ev0 = [] \<longleftrightarrow> \<not> (walk_include_oid g \<and> r0 = None)"
  proof (cases "walk_include_oid g")
    case True
    with assms(1) have "walk_get g w argv oid = (ev0, r0)"
      by simp
    from printed_walk_get [OF this] True show ?thesis
      by (auto split: if_splits)
  next
    case False
    with assms(1) show ?thesis by auto
  qed
  show ?thesis
  proof (cases r0)
    case (Some e)
    then show ?thesis
      using assms(1) by (intro exI [of _ "[]"]) (auto simp: walk_from_def split: if_splits)
  next
    case None
    note r0 = this
    show ?thesis
    proof (cases r1)
      case (Some e)
      with r0 assms show ?thesis
        by (intro exI [of _ "[]"])
           (auto simp: walk_from_def simp del: walk_loop.simps split: if_splits)
    next
      case None
      note r1 = this
      show ?thesis
      proof (cases "walk_fallback_oid g \<and> printed (ev0 @ ev1) = []")
        case False
        then have "\<not> (walk_fallback_oid g \<and> (if walk_include_oid g then 1 else 0) + n1 = (0::nat))"
          using n1 p0 r0 by (auto simp: printed_append)
        with r0 r1 assms False show ?thesis
          by (cases "walk_include_oid g")
             (auto simp: walk_from_def Let_def simp del: walk_loop.simps
               intro!: exI [of _ "if print_summary g then [Summary (int (1 + n1))] else []"]
                 exI [of _ "if print_summary g then [Summary (int n1)] else []"])
      next
        case True
        then have fb: "walk_fallback_oid g" and np: "printed ev0 = []" "printed ev1 = []"
          by (simp_all add: printed_append)
        from np(1) p0 r0 have ni: "\<not> walk_include_oid g"
          by simp
        with assms(1) have e0: "ev0 = []"
          by simp
        from np(2) n1 have z: "n1 = 0"
          by simp
        obtain evg rg where G: "walk_get g w argv oid = (evg, rg)"
          by (cases "walk_get g w argv oid") auto
        from printed_walk_get [OF G] have rq: "requests evg = [Get [oid]]"
          and pr: "length (printed evg) \<le> 1"
          by (simp_all split: if_splits)
        show ?thesis
        proof (cases rg)
          case None
          have "fst (walk_from g w argv oid) =
                ev0 @ ev1 @ (evg @ (if print_summary g then [Summary 1] else []))"
            using ni fb z e0 r1 assms(2) G None
            by (simp add: walk_from_def Let_def del: walk_loop.simps)
          moreover have "requests (evg @ (if print_summary g then [Summary 1] else [])) = [Get [oid]]"
            using rq by (simp add: requests_append)
          moreover have "length (printed (evg @ (if print_summary g then [Summary 1] else []))) \<le> 1"
            using pr by (simp add: printed_append)
          ultimately show ?thesis
            using r0 r1 True by (intro exI [of _ "evg @ (if print_summary g then [Summary 1] else [])"]) simp
        next
          case (Some e)
          have "fst (walk_from g w argv oid) = ev0 @ ev1 @ evg"
            using ni fb z e0 r1 assms(2) G Some
            by (simp add: walk_from_def Let_def del: walk_loop.simps)
          with rq pr r0 r1 True show ?thesis
            by (intro exI [of _ evg]) simp
        qed
      qed
    qed
  qed
qed

theorem walk_fallback_witness:
  "(if walk_include_oid (default_globals ''walk'')
    then walk_get (default_globals ''walk'') leaf_world [''localhost'', ''sysDescr.0'']
           [1, 3, 6, 1, 2, 1, 1, 1, 0]
    else ([], None)) = ([], None) \<and>
   walk_loop (default_globals ''walk'') leaf_world [1, 3, 6, 1, 2, 1, 1, 1, 0]
     [1, 3, 6, 1, 2, 1, 1, 1, 0] (walk_replies leaf_world) =
     ([Sent (GetNext [[1, 3, 6, 1, 2, 1, 1, 1, 0]])], 0, None) \<and>
   walk_fallback_oid (default_globals ''walk'') \<and>
   requests (fst (walk_from (default_globals ''walk'') leaf_world [''localhost'', ''sysDescr.0'']
     [1, 3, 6, 1, 2, 1, 1, 1, 0])) =
     [GetNext [[1, 3, 6, 1, 2, 1, 1, 1, 0]], Get [[1, 3, 6, 1, 2, 1, 1, 1, 0]]] \<and>
   length (printed (fst (walk_from (default_globals ''walk'') leaf_world
     [''localhost'', ''sysDescr.0''] [1, 3, 6, 1, 2, 1, 1, 1, 0]))) \<le> 1 \<and>
   requests (fst (snmpc_walk ((default_globals ''walk'')\<lparr>print_summary := True\<rparr>) subtree_world
     [''localhost'', ''system''])) =
     [GetNext [[1, 3, 6, 1, 2, 1, 1]], GetNext [[1, 3, 6, 1, 2, 1, 1, 1]],
      GetNext [[1, 3, 6, 1, 2, 1, 1, 2]]]"
proof -
  let ?g = "default_globals ''walk''"
  let ?o = "[1, 3, 6, 1, 2, 1, 1, 1, 0 :: nat]"
  let ?argv = "[''localhost'', ''sysDescr.0'']"
  have h1: "(if walk_include_oid ?g then walk_get ?g leaf_world ?argv ?o else ([], None))
            = ([], None)"
    by (simp add: default_globals_def)
  have h2: "walk_loop ?g leaf_world ?o ?o (walk_replies leaf_world) =
     ([Sent (GetNext [?o])], 0, None)"
    by (simp add: eval_walk)
  have h3: "walk_fallback_oid ?g"
    by (simp add: default_globals_def)
  from walk_fallback [OF h1 h2] obtain ev2 where
    e: "fst (walk_from ?g leaf_world ?argv ?o) = [] @ [Sent (GetNext [?o])] @ ev2"
    and r: "requests ev2 = [Get [?o]]" and p: "length (printed ev2) \<le> 1"
    using h3 by auto
  from e r have c1: "requests (fst (walk_from ?g leaf_world ?argv ?o)) = [GetNext [?o], Get [?o]]"
    by simp
  from e p have c2: "length (printed (fst (walk_from ?g leaf_world ?argv ?o))) \<le> 1"
    by simp
  have c3: "requests (fst (snmpc_walk ((default_globals ''walk'')\<lparr>print_summary := True\<rparr>)
       subtree_world [''localhost'', ''system''])) =
     [GetNext [[1, 3, 6, 1, 2, 1, 1]], GetNext [[1, 3, 6, 1, 2, 1, 1, 1]],
      GetNext [[1, 3, 6, 1, 2, 1, 1, 2]]]"
    by (simp add: walk_subtree_run)
  show ?thesis
    by (intro conjI h1 h2 h3 c1 c2 c3)
qed

text \<open>
  C6 as stated fails: with \<open>walk_fallback_oid\<close> on and \<open>walk_include_oid\<close> off, a walk
  whose first GETNEXT is answered with an error status prints no binding, and the command
  exits there without the GET of the root.
\<close>

theorem walk_fallback_counterexample:
  "walk_fallback_oid (default_globals ''walk'') \<and>
   \<not> walk_include_oid (default_globals ''walk'') \<and>
   walk_replies refusing_world = [\<lparr>errorstatus = 2, errorindex = 1, varbinds = []\<rparr>] \<and>
   snmpc_walk (default_globals ''walk'') refusing_world [''localhost'', ''system''] =
     ([Connected ''localhost'' ''161'', Sent (GetNext [[1, 3, 6, 1, 2, 1, 1]])],
      Exit (Errx ''Can't parse oid 1.3.6.1.2.1.1: No such object'')) \<and>
   printed (fst (snmpc_walk (default_globals ''walk'') refusing_world
     [''localhost'', ''system''])) = [] \<and>
   requests (fst (snmpc_walk (default_globals ''walk'') refusing_world
     [''localhost'', ''system''])) = [GetNext [[1, 3, 6, 1, 2, 1, 1]]]"
  by (simp add: eval_walk refusing_world_def snmpc_printerror_def dec_nat.simps char_of_def
      bit_0 bit_Suc)

section \<open>The claim about the get commands\<close>

lemmas eval_get =
  snmpc_get_def get_request_def get_name_def argv_at_def printerror_at_def
  snmpc_printerror_def error_world_def example_world_def default_globals_def Let_def

lemma string2oids_length: "string2oids w as = Some oids \<Longrightarrow> length oids = length as"
  by (induction as arbitrary: oids) (auto split: option.splits)

lemma get_error_names_requested_oid:
  assumes "2 \<le> length argv" "agent_connect w (argv ! 0) ''161'' = None" "pledge_ok w"
    "alloc_oids w (length argv - 1)" "string2oids w (tl argv) = Some oids"
    "get_request g oids = Inr req" "agent_reply w req = Some pdu" "errorstatus pdu \<noteq> 0"
    "1 \<le> errorindex pdu" "errorindex pdu \<le> int (length oids)"
  shows "snmpc_get g w argv =
         ([Connected (argv ! 0) ''161'', Sent req],
          Exit (snmpc_printerror (errorstatus pdu) (tl argv ! nat (errorindex pdu - 1))))"
proof -
  from string2oids_length [OF assms(5)] have len: "length oids = length argv - 1"
    by simp
  from assms(1) obtain a as where argv: "argv = a # as"
    by (cases argv) auto
  from assms(9,10) len argv have
    "argv_at 1 argv (errorindex pdu - 1) = Arg (tl argv ! nat (errorindex pdu - 1))"
    by (auto simp: argv_at_def Let_def nth_Cons' nat_diff_distrib)
  with assms show ?thesis
    by (simp add: snmpc_get_def printerror_at_def)
qed

text \<open>
  C5, at the inputs where the code misses it. On a request for two OIDs answered with the
  error status 2 (no such name) and the error index 1, the message names the first OID.
  The error index is not checked against the number of OIDs: with the index 0, which an
  agent sends with the error status 1 (too big), the message names the agent argument;
  with the index 3 it prints the NULL that ends \<open>argv\<close>; with the index 4 \<open>argv\<close> is read
  outside the array.
\<close>

theorem get_error_index_unchecked:
  "snmpc_get (default_globals ''get'') (error_world 2 1)
     [''localhost'', ''sysDescr.0'', ''sysObjectID.0''] =
     ([Connected ''localhost'' ''161'',
       Sent (Get [[1, 3, 6, 1, 2, 1, 1, 1, 0], [1, 3, 6, 1, 2, 1, 1, 2, 0]])],
      Exit (Errx ''Can't parse oid sysDescr.0: No such object'')) \<and>
   snmpc_get (default_globals ''get'') (error_world 1 0)
     [''localhost'', ''sysDescr.0'', ''sysObjectID.0''] =
     ([Connected ''localhost'' ''161'',
       Sent (Get [[1, 3, 6, 1, 2, 1, 1, 1, 0], [1, 3, 6, 1, 2, 1, 1, 2, 0]])],
      Exit (Errx ''Can't parse oid localhost: Response too big'')) \<and>
   snmpc_get (default_globals ''get'') (error_world 2 3)
     [''localhost'', ''sysDescr.0'', ''sysObjectID.0''] =
     ([Connected ''localhost'' ''161'',
       Sent (Get [[1, 3, 6, 1, 2, 1, 1, 1, 0], [1, 3, 6, 1, 2, 1, 1, 2, 0]])],
      Exit (Errx ''Can't parse oid (null): No such object'')) \<and>
   snmpc_get (default_globals ''get'') (error_world 2 4)
     [''localhost'', ''sysDescr.0'', ''sysObjectID.0''] =
     ([Connected ''localhost'' ''161'',
       Sent (Get [[1, 3, 6, 1, 2, 1, 1, 1, 0], [1, 3, 6, 1, 2, 1, 1, 2, 0]])],
      Exit (Out_of_bounds 3))"
  by (simp add: eval_get)

end
